theory Spec2Isabelle
  imports Main "HOL-Library.Word"
begin

section \<open>The buffered writer (writer.cpp)\<close>

text \<open>
  The writer module keeps its state in file-level variables: the session state, four RTOS
  handles, two byte planes of \<open>BUFF_SIZE\<close> bytes, the pointer to the plane that is
  being filled and its fill length. A background task created by \<open>writer_start\<close> takes
  commands from a queue and writes the referenced plane to the SD card.

  The embedding keeps the variables as the fields of one record. A handle that is
  \<open>NULL\<close> is \<open>False\<close> or \<open>None\<close>; the queue handle carries the commands waiting
  in the queue, the event group handle carries the \<open>TASK_COMPLETE\<close> bit. What the RTOS
  and the SD card answer is not decided by the module, so every call takes an
  environment \<open>env\<close> that fixes these answers and the progress of the background task.
  A call of the producer that does not return, because it waits for ever or because the
  RTOS stops on a \<open>NULL\<close> handle, has the result \<open>None\<close>.
\<close>

type_synonym byte = "8 word"

definition BUFF_SIZE :: nat where
  "BUFF_SIZE = 8192"

definition EMIT_DURATION :: nat where
  "EMIT_DURATION = 500"

text \<open>The depth given to \<open>xQueueCreate\<close>.\<close>

definition QUEUE_DEPTH :: nat where
  "QUEUE_DEPTH = 3"

datatype plane = Plane1 | Plane2

datatype opcode = OP_FLUSH | OP_EXIT

text \<open>\<open>struct Command\<close>; the field \<open>size\<close> is \<open>csize\<close> here.\<close>

record Command =
  op :: opcode
  data :: plane
  csize :: nat

datatype CRGB = Yellow | Blue | DarkCyan | Green | DarkGreen | Magenta | Red

text \<open>What the writer task does to the outside, in the order it does it.\<close>

datatype effect =
    FileOpen string
  | LedShow CRGB
  | FileWrite "byte list"
  | FileSync
  | Delay nat
  | FileClose
  | SetBits

text \<open>
  The locals of \<open>writer_task_func\<close> and the file it owns: \<open>received\<close> lists the
  commands the task has received and dealt with, \<open>stored\<close> the bytes
  \<open>file.write\<close> has accepted, \<open>alive\<close> tells whether the task still exists.
\<close>

record writer_task =
  error :: bool
  received :: "Command list"
  effects :: "effect list"
  stored :: "byte list"
  alive :: bool

record env =
  alloc_queue :: bool
  alloc_mutex :: bool
  alloc_events :: bool
  alloc_task :: bool
  open_ok :: bool
  take_ok :: bool
  send_ok :: "nat \<Rightarrow> bool"
  lag :: "nat \<Rightarrow> nat"
  ahead :: "nat \<Rightarrow> nat"
  io :: "nat \<Rightarrow> (nat \<Rightarrow> nat) \<times> bool"

text \<open>
  Beside the file-level variables the record holds the task (\<open>wt\<close>) and, in
  \<open>taken\<close>, the command \<open>xQueueReceive\<close> has handed to the task and the task has
  not finished with, together with the bytes of the plane that \<open>file.write\<close> has read
  for it so far.
\<close>

record writer =
  state :: int
  mutex :: bool
  queue :: "Command list option"
  task :: bool
  events :: "bool option"
  buff_plane1 :: "byte list"
  buff_plane2 :: "byte list"
  cur_buff :: plane
  used :: nat
  wt :: writer_task
  taken :: "(Command \<times> byte list) option"

definition no_task :: writer_task where
  "no_task = \<lparr>error = False, received = [], effects = [], stored = [], alive = False\<rparr>"

text \<open>The module before the first call: statics are zero-initialised.\<close>

definition writer_init :: writer where
  "writer_init =
     \<lparr>state = 0, mutex = False, queue = None, task = False, events = None,
      buff_plane1 = replicate BUFF_SIZE 0, buff_plane2 = replicate BUFF_SIZE 0,
      cur_buff = Plane1, used = 0, wt = no_task, taken = None\<rparr>"

definition peek :: "plane \<Rightarrow> writer \<Rightarrow> byte list" where
  "peek p w = (case p of Plane1 \<Rightarrow> buff_plane1 w | Plane2 \<Rightarrow> buff_plane2 w)"

text \<open>
  \<open>cur_buff[i] = b\<close>. An index beyond the plane is undefined behaviour in C; the
  model leaves the plane as it is there; the bound proved for the reachable states shows that
  the case does not arise.
\<close>

definition poke :: "plane \<Rightarrow> nat \<Rightarrow> byte \<Rightarrow> writer \<Rightarrow> writer" where
  "poke p i b w =
     (case p of
        Plane1 \<Rightarrow> w\<lparr>buff_plane1 := (buff_plane1 w)[i := b]\<rparr>
      | Plane2 \<Rightarrow> w\<lparr>buff_plane2 := (buff_plane2 w)[i := b]\<rparr>)"

definition other :: "plane \<Rightarrow> plane" where
  "other p = (if p = Plane1 then Plane2 else Plane1)"

subsection \<open>The writer task\<close>

text \<open>
  One turn of the command loop of \<open>writer_task_func\<close> after \<open>xQueueReceive\<close> has
  delivered \<open>cmd\<close>. \<open>mem\<close> is what \<open>file.write\<close> reads at the address
  \<open>cmd.data\<close>; \<open>r\<close> is what the card answers: the count \<open>file.write\<close> returns
  when asked for so many bytes, and the result of \<open>file.sync\<close>. A failed
  \<open>xQueueReceive\<close> only logs and repeats the loop.
\<close>

definition task_iter :: "(nat \<Rightarrow> nat) \<times> bool \<Rightarrow> byte list \<Rightarrow> Command \<Rightarrow> writer_task \<Rightarrow> writer_task" where
  "task_iter r mem cmd t0 =
     (let t = t0\<lparr>received := received t0 @ [cmd]\<rparr>;
          t = (if \<not> error t then
                 (if csize cmd > 0 then
                    (let t = t\<lparr>effects := effects t @ [LedShow Red]\<rparr>;
                         buf = take (csize cmd) mem;
                         t = t\<lparr>effects := effects t @ [FileWrite buf],
                               stored := stored t @ take (fst r (csize cmd)) buf\<rparr>;
                         t = (if fst r (csize cmd) = csize cmd
                              then t\<lparr>effects := effects t @ [FileSync], error := \<not> snd r\<rparr>
                              else t\<lparr>error := True\<rparr>);
                         t = t\<lparr>effects := effects t @ [Delay EMIT_DURATION]\<rparr>;
                         t = t\<lparr>effects := effects t @
                                 [LedShow (if error t then Magenta else DarkGreen)]\<rparr>
                     in t)
                  else t)
               else t)
      in if op cmd = OP_EXIT
         then t\<lparr>effects := effects t @ [FileClose, SetBits], alive := False\<rparr>
         else t)"

text \<open>
  The task as started by \<open>xTaskCreateUniversal\<close>: it opens the file before it
  enters the loop.
\<close>

definition task_begin :: "bool \<Rightarrow> string \<Rightarrow> writer_task" where
  "task_begin ok path =
     \<lparr>error = \<not> ok, received = [], effects = [FileOpen path], stored = [], alive = True\<rparr>"

text \<open>
  The task runs beside the producer, on the other core and without a lock on the planes.
  Its loop is therefore cut into the steps between which the producer can run: the task
  takes the oldest command from the queue (\<open>xQueueReceive\<close>); inside \<open>file.write\<close> it
  reads the plane the command points to, byte by byte; with the last byte read it finishes
  the turn with what the card answers. Without a write (error flag set, or size 0) the turn
  is finished right after the command was taken. Leaving the loop the task sets
  \<open>TASK_COMPLETE\<close> in the event group. A command longer than its plane would make
  \<open>file.write\<close> read behind the plane; the model reads up to the end of the plane.
\<close>

definition worker_step :: "env \<Rightarrow> writer \<Rightarrow> writer" where
  "worker_step e w =
     (if \<not> alive (wt w) then w
      else case taken w of
        None \<Rightarrow>
          (case queue w of
             Some (c # q) \<Rightarrow> w\<lparr>queue := Some q, taken := Some (c, [])\<rparr>
           | _ \<Rightarrow> w)
      | Some (c, chunk) \<Rightarrow>
          if \<not> error (wt w) \<and> length chunk < csize c \<and> length chunk < length (peek (data c) w)
          then w\<lparr>taken := Some (c, chunk @ [peek (data c) w ! length chunk])\<rparr>
          else
            (let t = task_iter (io e (length (received (wt w)))) chunk c (wt w)
             in w\<lparr>taken := None, wt := t,
                  events := (if alive t then events w else map_option (\<lambda>_. True) (events w))\<rparr>))"

fun worker_run :: "nat \<Rightarrow> env \<Rightarrow> writer \<Rightarrow> writer" where
  "worker_run 0 e w = w"
| "worker_run (Suc n) e w = worker_run n e (worker_step e w)"

text \<open>The commands waiting in the queue, oldest first (none when there is no queue).\<close>

definition the_queue :: "writer \<Rightarrow> Command list" where
  "the_queue w = (case queue w of None \<Rightarrow> [] | Some q \<Rightarrow> q)"

definition qlen :: "writer \<Rightarrow> nat" where
  "qlen w = length (the_queue w)"

text \<open>The commands sent and not finished by the task: the one it has taken, then those waiting.\<close>

definition unfinished :: "writer \<Rightarrow> Command list" where
  "unfinished w = (case taken w of None \<Rightarrow> [] | Some (c, chunk) \<Rightarrow> [c]) @ the_queue w"

text \<open>
  A bound on the steps the task can still take: two for a waiting command, one for the
  command taken, and one for each byte to read.
\<close>

definition work_left :: "writer \<Rightarrow> nat" where
  "work_left w =
     (case taken w of None \<Rightarrow> 0 | Some (c, chunk) \<Rightarrow> csize c - length chunk + 1) +
     sum_list (map (\<lambda>c. csize c + 2) (the_queue w))"

text \<open>The task runs until \<open>P\<close> holds, for at most \<open>n\<close> steps.\<close>

fun worker_until :: "(writer \<Rightarrow> bool) \<Rightarrow> nat \<Rightarrow> env \<Rightarrow> writer \<Rightarrow> writer" where
  "worker_until P 0 e w = w"
| "worker_until P (Suc n) e w = (if P w then w else worker_until P n e (worker_step e w))"

text \<open>The task runs until at most \<open>k\<close> of the commands sent are not finished.\<close>

definition worker_catch_up :: "env \<Rightarrow> nat \<Rightarrow> writer \<Rightarrow> writer" where
  "worker_catch_up e k w = worker_until (\<lambda>w. length (unfinished w) \<le> k) (work_left w) e w"

subsection \<open>RTOS calls of the producer\<close>

text \<open>
  \<open>xSemaphoreTake(mutex, portMAX_DELAY)\<close>. Only the producer takes the mutex, so with a
  mutex the call returns, with the answer \<open>take_ok e\<close>. On a \<open>NULL\<close> handle
  FreeRTOS stops (the call asserts the handle), and the call does not return.
\<close>

definition xSemaphoreTake :: "env \<Rightarrow> writer \<Rightarrow> bool option" where
  "xSemaphoreTake e w = (if mutex w then Some (take_ok e) else None)"

text \<open>
  \<open>xQueueSend(queue, &cmd, portMAX_DELAY)\<close>. With a full queue the call waits until the
  task has taken a command; if that never happens the call does not return, and neither
  does a call on a \<open>NULL\<close> handle. Otherwise the answer is \<open>send_ok e i\<close>, and with
  \<open>pdPASS\<close> the command is the newest of the queue.
\<close>

definition xQueueSend :: "env \<Rightarrow> nat \<Rightarrow> Command \<Rightarrow> writer \<Rightarrow> (bool \<times> writer) option" where
  "xQueueSend e i cmd w0 =
     (if queue w0 = None then None
      else
        (let w = worker_until (\<lambda>w. qlen w < QUEUE_DEPTH) (work_left w0) e w0
         in if QUEUE_DEPTH \<le> qlen w then None
            else if send_ok e i then Some (True, w\<lparr>queue := Some (the_queue w @ [cmd])\<rparr>)
            else Some (False, w)))"

text \<open>
  \<open>xEventGroupWaitBits(events, TASK_COMPLETE, pdTRUE, pdTRUE, portMAX_DELAY)\<close>: the
  producer sleeps, the task works until it leaves its loop; the call returns, clearing the
  bit, once the task has set it, and never otherwise.
\<close>

definition xEventGroupWaitBits :: "env \<Rightarrow> writer \<Rightarrow> writer option" where
  "xEventGroupWaitBits e w0 =
     (let w = worker_until (\<lambda>w. \<not> alive (wt w)) (work_left w0) e w0
      in if events w = Some True then Some (w\<lparr>events := Some False\<rparr>) else None)"

subsection \<open>push_byte\<close>

text \<open>
  \<open>i\<close> counts the bytes of the running call. The environment fixes how far the task
  has come when the producer stores byte \<open>i\<close>: the task has finished all but at most
  \<open>lag e i\<close> of the commands sent, and has taken \<open>ahead e i\<close> steps more. Every
  interleaving of the steps of the task with the stores of the producer is of this form
  (\<open>before_store_free\<close> and \<open>schedule_as_lag\<close> below).
\<close>

definition push_byte :: "env \<Rightarrow> nat \<Rightarrow> byte \<Rightarrow> bool \<Rightarrow> writer \<Rightarrow> (int \<times> bool \<times> writer) option" where
  "push_byte e i b dst w0 =
     (let ret = 0;
          w = worker_run (ahead e i) e (worker_catch_up e (lag e i) w0);
          w = poke (cur_buff w) (used w) b w;
          w = w\<lparr>used := used w + 1\<rparr>
      in if used w = BUFF_SIZE then
           (let cmd = \<lparr>op = OP_FLUSH, data = cur_buff w, csize = BUFF_SIZE\<rparr>
            in case xQueueSend e i cmd w of
                 None \<Rightarrow> None
               | Some (ok, w) \<Rightarrow>
                   (let ret = (if \<not> ok then 161 else ret);
                        w = w\<lparr>cur_buff := (if cur_buff w = Plane1 then Plane2 else Plane1)\<rparr>;
                        w = w\<lparr>used := 0\<rparr>;
                        dst = (if dst = False then True else dst)
                    in Some (ret, dst, w)))
         else Some (ret, dst, w))"

subsection \<open>The public functions\<close>

text \<open>
  Error returns are \<open>DEFAULT_ERROR\<close>, that is \<open>__LINE__\<close>: the number of the source
  line that sets them.
\<close>

definition writer_start :: "env \<Rightarrow> string option \<Rightarrow> writer \<Rightarrow> int \<times> writer" where
  "writer_start e path w0 =
     (let ret = (0::int);
          ret = (if path = None then 197 else ret);
          ret = (if state w0 \<noteq> 0 then 202 else ret);
          w = (if ret = 0 then w0\<lparr>queue := (if alloc_queue e then Some [] else None)\<rparr> else w0);
          ret = (if ret = 0 \<and> queue w = None then 209 else ret);
          w = (if ret = 0 then w\<lparr>mutex := alloc_mutex e\<rparr> else w);
          ret = (if ret = 0 \<and> \<not> mutex w then 214 else ret);
          w = (if ret = 0 then w\<lparr>events := (if alloc_events e then Some False else None)\<rparr> else w);
          ret = (if ret = 0 \<and> events w = None then 219 else ret);
          w = (if ret = 0 \<and> alloc_task e
               then w\<lparr>task := True, wt := task_begin (open_ok e) (the path), taken := None\<rparr>
               else w);
          ret = (if ret = 0 \<and> \<not> alloc_task e then 231 else ret);
          w = (if ret = 0 then w\<lparr>state := 1\<rparr> else w);
          w = (if ret \<noteq> 0
               then w\<lparr>wt := (if task w then (wt w)\<lparr>alive := False\<rparr> else wt w),
                      taken := (if task w then None else taken w),
                      queue := None, mutex := False, events := None, task := False\<rparr>
               else w)
      in (0, w))"

fun puts_loop :: "env \<Rightarrow> nat \<Rightarrow> byte list \<Rightarrow> bool \<Rightarrow> writer \<Rightarrow> (int \<times> bool \<times> writer) option" where
  "puts_loop e i [] wrote w = Some (0, wrote, w)"
| "puts_loop e i (c # s) wrote w =
     (if c = 0 then Some (0, wrote, w)
      else case push_byte e i c wrote w of
             None \<Rightarrow> None
           | Some (err, wrote, w) \<Rightarrow>
               if err \<noteq> 0 then Some (296, wrote, w) else puts_loop e (i + 1) s wrote w)"

text \<open>
  \<open>s\<close> is the text \<open>s\<close> points to, up to and without its terminating NUL; the
  result carries what \<open>dst\<close> points to afterwards (\<open>None\<close> for a \<open>NULL\<close> pointer).
\<close>

definition writer_puts :: "env \<Rightarrow> byte list \<Rightarrow> bool option \<Rightarrow> writer \<Rightarrow> (int \<times> bool option \<times> writer) option" where
  "writer_puts e s dst w0 =
     (case xSemaphoreTake e w0 of
        None \<Rightarrow> None
      | Some lock \<Rightarrow>
          (let ret = (0::int);
               wrote = False;
               ret = (if lock then ret else 279);
               ret = (if ret = 0 \<and> state w0 \<noteq> 1 then 286 else ret)
           in case (if ret = 0 then puts_loop e 0 s wrote w0 else Some (ret, wrote, w0)) of
                None \<Rightarrow> None
              | Some (ret, wrote, w) \<Rightarrow>
                  Some (ret, (if ret = 0 \<and> dst \<noteq> None then Some wrote else dst), w)))"

definition writer_push :: "env \<Rightarrow> byte \<Rightarrow> bool option \<Rightarrow> writer \<Rightarrow> (int \<times> bool option \<times> writer) option" where
  "writer_push e b dst w0 =
     (case xSemaphoreTake e w0 of
        None \<Rightarrow> None
      | Some lock \<Rightarrow>
          (let ret = (0::int);
               wrote = False;
               ret = (if lock then ret else 338);
               ret = (if ret = 0 \<and> state w0 \<noteq> 1 then 345 else ret)
           in case (if ret = 0
                    then (case push_byte e 0 b wrote w0 of
                            None \<Rightarrow> None
                          | Some (err, wrote, w) \<Rightarrow>
                              Some (if err \<noteq> 0 then 353 else ret, wrote, w))
                    else Some (ret, wrote, w0)) of
                None \<Rightarrow> None
              | Some (ret, wrote, w) \<Rightarrow>
                  Some (ret, (if ret = 0 \<and> dst \<noteq> None then Some wrote else dst), w)))"

text \<open>
  In \<open>writer_finish\<close> the state check sits under \<open>if (ret)\<close>, not \<open>if (!ret)\<close> as in
  the two functions above; the model follows the source. All three functions take the
  mutex before they look at the state.
\<close>

definition writer_finish :: "env \<Rightarrow> writer \<Rightarrow> (int \<times> writer) option" where
  "writer_finish e w0 =
     (case xSemaphoreTake e w0 of
        None \<Rightarrow> None
      | Some lock \<Rightarrow>
          (let ret = (0::int);
               ret = (if lock then ret else 390);
               ret = (if ret \<noteq> 0 \<and> state w0 \<noteq> 1 then 397 else ret)
           in case (if ret = 0
                    then (case xQueueSend e 0
                                 \<lparr>op = OP_EXIT, data = cur_buff w0, csize = used w0\<rparr> w0 of
                            None \<Rightarrow> None
                          | Some (ok, w) \<Rightarrow> Some (if \<not> ok then 410 else ret, w))
                    else Some (ret, w0)) of
                None \<Rightarrow> None
              | Some (ret, w) \<Rightarrow>
                  (case (if ret = 0 then xEventGroupWaitBits e w else Some w) of
                     None \<Rightarrow> None
                   | Some w \<Rightarrow>
                       (let w = (if ret = 0 then w\<lparr>state := 2\<rparr> else w);
                            w = (if ret = 0
                                 then w\<lparr>queue := None, mutex := False, events := None,
                                        task := False, cur_buff := Plane1, used := 0,
                                        state := 0\<rparr>
                                 else w)
                        in Some (ret, w)))))"

section \<open>The recorder (main.ino)\<close>

text \<open>
  \<open>loop\<close> runs once per polling cycle on the byte read from the serial port, if there
  is one, and on the hold signal of the button. The recorder never looks at what the
  writer returns, so a tick is a function of the state variable alone; the calls it makes
  on the writer and on the monitor port are appended to \<open>calls\<close> in the order made.
  The source's \<open>state\<close> is \<open>main_state\<close> here.
\<close>

datatype call =
    WriterStart string
  | WriterPuts "byte list"
  | WriterPush byte
  | WriterFinish
  | SerialPrint byte

definition ST_IDLE :: int where "ST_IDLE = 0"
definition ST_READY :: int where "ST_READY = 1"
definition ST_RECORD :: int where "ST_RECORD = 2"
definition ST_FIN :: int where "ST_FIN = 3"
definition ST_ERROR :: int where "ST_ERROR = 4"

record recorder =
  main_state :: int
  led :: CRGB
  enableDatetime :: bool
  calls :: "call list"

definition transition_to_idle :: "recorder \<Rightarrow> recorder" where
  "transition_to_idle r =
     r\<lparr>led := (if enableDatetime r then Blue else DarkCyan), main_state := ST_IDLE\<rparr>"

definition transition_to_ready :: "recorder \<Rightarrow> recorder" where
  "transition_to_ready r = r\<lparr>led := Green, main_state := ST_READY\<rparr>"

definition transition_to_record :: "recorder \<Rightarrow> recorder" where
  "transition_to_record r = r\<lparr>led := DarkGreen, main_state := ST_RECORD\<rparr>"

definition transition_to_fin :: "recorder \<Rightarrow> recorder" where
  "transition_to_fin r = r\<lparr>led := Magenta, main_state := ST_FIN\<rparr>"

definition transition_to_error :: "recorder \<Rightarrow> recorder" where
  "transition_to_error r = r\<lparr>led := Red, main_state := ST_ERROR\<rparr>"

text \<open>The UTF-8 byte order mark and the CSV header line, as the bytes of the literals.\<close>

definition bom :: "byte list" where
  "bom = [239, 187, 191]"

definition csv_header :: "byte list" where
  "csv_header =
     [34, 227, 130, 191, 227, 130, 164, 227, 131, 160, 227, 130, 185, 227, 130, 191,
      227, 131, 179, 227, 131, 151, 34, 44, 34, 233, 155, 187, 229, 156, 167, 34, 44, 34,
      233, 155, 187, 230, 181, 129, 34, 44, 34, 230, 182, 136, 232, 178, 187, 233, 155,
      187, 229, 138, 155, 34, 10]"

text \<open>
  \<open>path\<close> is the file name \<open>start_writer_task\<close> builds from the clock or from the
  first free number on the card.
\<close>

definition start_writer_task :: "string \<Rightarrow> recorder \<Rightarrow> recorder" where
  "start_writer_task path r =
     r\<lparr>calls := calls r @ [WriterStart path, WriterPuts bom, WriterPuts csv_header]\<rparr>"

definition output_data :: "byte \<Rightarrow> recorder \<Rightarrow> recorder" where
  "output_data ch r = r\<lparr>calls := calls r @ [WriterPush ch, SerialPrint ch]\<rparr>"

definition stop_writer_task :: "recorder \<Rightarrow> recorder" where
  "stop_writer_task r = r\<lparr>calls := calls r @ [WriterFinish]\<rparr>"

definition do_idle_state_proc :: "string \<Rightarrow> byte \<Rightarrow> bool \<Rightarrow> recorder \<Rightarrow> recorder" where
  "do_idle_state_proc path ch btn r =
     (if btn then start_writer_task path (transition_to_ready r) else r)"

definition do_ready_state_proc :: "byte \<Rightarrow> bool \<Rightarrow> recorder \<Rightarrow> recorder" where
  "do_ready_state_proc ch btn r =
     (if btn then transition_to_idle (stop_writer_task r)
      else if ch = 10 then transition_to_record r
      else r)"

definition do_record_state_proc :: "byte \<Rightarrow> bool \<Rightarrow> recorder \<Rightarrow> recorder" where
  "do_record_state_proc ch btn r =
     (if ch = 0 then (if btn then transition_to_fin r else r)
      else if ch = 10 then
        (let r = output_data ch r
         in if btn then transition_to_idle (stop_writer_task r) else r)
      else
        (let r = output_data ch r
         in if btn then transition_to_fin r else r))"

definition do_fin_state_proc :: "byte \<Rightarrow> bool \<Rightarrow> recorder \<Rightarrow> recorder" where
  "do_fin_state_proc ch btn r =
     (if ch = 0 then r
      else if ch = 10 then transition_to_idle (stop_writer_task (output_data ch r))
      else output_data ch r)"

text \<open>
  \<open>rx\<close> is \<open>None\<close> when \<open>Serial2.available()\<close> is zero, otherwise the byte
  \<open>Serial2.read()\<close> delivers; \<open>btn\<close> is the result of \<open>was_hold()\<close>.
\<close>

definition loop :: "string \<Rightarrow> byte option \<Rightarrow> bool \<Rightarrow> recorder \<Rightarrow> recorder" where
  "loop path rx btn r =
     (let ch = (case rx of Some c \<Rightarrow> c | None \<Rightarrow> 0)
      in if main_state r = ST_IDLE then do_idle_state_proc path ch btn r
         else if main_state r = ST_READY then do_ready_state_proc ch btn r
         else if main_state r = ST_RECORD then do_record_state_proc ch btn r
         else if main_state r = ST_FIN then do_fin_state_proc ch btn r
         else r)"

text \<open>The recorder after each tick of a sequence of inputs.\<close>

fun ticks :: "string \<Rightarrow> (byte option \<times> bool) list \<Rightarrow> recorder \<Rightarrow> recorder list" where
  "ticks path [] r = []"
| "ticks path ((rx, btn) # xs) r = loop path rx btn r # ticks path xs (loop path rx btn r)"

text \<open>The recorder as \<open>setup\<close> leaves it when the card is mounted.\<close>

definition recorder_idle :: "bool \<Rightarrow> recorder" where
  "recorder_idle dt =
     transition_to_idle \<lparr>main_state = 0, led = Yellow, enableDatetime = dt, calls = []\<rparr>"

definition is_push :: "call \<Rightarrow> bool" where
  "is_push c = (case c of WriterPush b \<Rightarrow> True | _ \<Rightarrow> False)"

section \<open>Notions used to state the properties\<close>

text \<open>An environment in which every allocation, RTOS call and card operation succeeds
  and the task has finished every command sent before each byte.\<close>

definition env_ok :: env where
  "env_ok =
     \<lparr>alloc_queue = True, alloc_mutex = True, alloc_events = True, alloc_task = True,
      open_ok = True, take_ok = True, send_ok = (\<lambda>_. True), lag = (\<lambda>_. 0),
      ahead = (\<lambda>_. 0), io = (\<lambda>_. (\<lambda>n. n, True))\<rparr>"

text \<open>The states of the module that calls of the public functions can produce.\<close>

inductive reachable :: "writer \<Rightarrow> bool" where
  init: "reachable writer_init"
| start: "reachable w \<Longrightarrow> writer_start e path w = (r, w') \<Longrightarrow> reachable w'"
| puts: "reachable w \<Longrightarrow> writer_puts e s dst w = Some (r, dst', w') \<Longrightarrow> reachable w'"
| push: "reachable w \<Longrightarrow> writer_push e b dst w = Some (r, dst', w') \<Longrightarrow> reachable w'"
| finish: "reachable w \<Longrightarrow> writer_finish e w = Some (r, w') \<Longrightarrow> reachable w'"

definition planes_ok :: "writer \<Rightarrow> bool" where
  "planes_ok w \<longleftrightarrow>
     used w < BUFF_SIZE \<and> length (buff_plane1 w) = BUFF_SIZE \<and>
     length (buff_plane2 w) = BUFF_SIZE"

text \<open>The reset \<open>writer_finish\<close> performs after the task has completed.\<close>

definition closed :: "writer \<Rightarrow> writer" where
  "closed w =
     w\<lparr>queue := None, mutex := False, events := None, task := False,
       cur_buff := Plane1, used := 0, state := 0\<rparr>"

text \<open>All commands of the list are \<open>OP_FLUSH\<close>.\<close>

definition flush_only :: "Command list \<Rightarrow> bool" where
  "flush_only q = list_all (\<lambda>c. op c = OP_FLUSH) q"

text \<open>The command loop of the task on a sequence of received commands, each with what the
  card answers and what \<open>file.write\<close> reads from the referenced plane; the loop ends
  with \<open>OP_EXIT\<close>.\<close>

fun task_run :: "(((nat \<Rightarrow> nat) \<times> bool) \<times> byte list \<times> Command) list \<Rightarrow> writer_task \<Rightarrow> writer_task" where
  "task_run [] t = t"
| "task_run ((r, mem, cmd) # xs) t =
     (if alive t then task_run xs (task_iter r mem cmd t) else t)"

text \<open>The physical operations on the card: write and sync.\<close>

definition is_phys :: "effect \<Rightarrow> bool" where
  "is_phys x = (case x of FileWrite _ \<Rightarrow> True | FileSync \<Rightarrow> True | _ \<Rightarrow> False)"

text \<open>The commands up to and including the first \<open>OP_EXIT\<close>.\<close>

fun until_exit :: "Command list \<Rightarrow> Command list" where
  "until_exit [] = []"
| "until_exit (c # cs) = (if op c = OP_EXIT then [c] else c # until_exit cs)"

text \<open>The task \<open>t'\<close> is what a run of the command loop makes of the task \<open>t\<close>.\<close>

definition evolves :: "writer_task \<Rightarrow> writer_task \<Rightarrow> bool" where
  "evolves t t' \<longleftrightarrow> (\<exists>xs. t' = task_run xs t)"

text \<open>The task is in its loop, has not signalled completion, and has met only \<open>OP_FLUSH\<close> so far.\<close>

definition task_ok :: "writer \<Rightarrow> bool" where
  "task_ok w \<longleftrightarrow>
     alive (wt w) \<and> events w = Some False \<and> queue w \<noteq> None \<and>
     flush_only (received (wt w)) \<and> flush_only (unfinished w)"

text \<open>An open session: the state \<open>writer_start\<close> leaves behind on success and the
  writes of the session keep.\<close>

definition session_ok :: "writer \<Rightarrow> bool" where
  "session_ok w \<longleftrightarrow> state w = 1 \<and> mutex w \<and> task w \<and> task_ok w \<and> planes_ok w"

text \<open>Every command sent so far in the session: those the task has dealt with, the one it has
  taken, those waiting.\<close>

definition sent :: "writer \<Rightarrow> Command list" where
  "sent w = received (wt w) @ unfinished w"

text \<open>The bytes the commands of \<open>q\<close> would write if the task wrote them now.\<close>

definition pending :: "writer \<Rightarrow> Command list \<Rightarrow> byte list" where
  "pending w q = concat (map (\<lambda>c. take (csize c) (peek (data c) w)) q)"

text \<open>The bytes on the card followed by the bytes of the commands not finished.\<close>

definition flushed :: "writer \<Rightarrow> byte list" where
  "flushed w = stored (wt w) @ pending w (unfinished w)"

text \<open>What the task has read for the command it has taken is what the plane still holds.\<close>

definition chunk_ok :: "writer \<Rightarrow> bool" where
  "chunk_ok w \<longleftrightarrow>
     (case taken w of
        None \<Rightarrow> True
      | Some (c, chunk) \<Rightarrow>
          length chunk \<le> csize c \<and> chunk = take (length chunk) (peek (data c) w))"

text \<open>The module after the task has made room in the queue for \<open>xQueueSend\<close>.\<close>

definition room :: "env \<Rightarrow> writer \<Rightarrow> writer" where
  "room e w = worker_until (\<lambda>w. qlen w < QUEUE_DEPTH) (work_left w) e w"

text \<open>The module at the moment \<open>push_byte\<close> stores byte \<open>i\<close>.\<close>

definition before_store :: "env \<Rightarrow> nat \<Rightarrow> writer \<Rightarrow> writer" where
  "before_store e i w = worker_run (ahead e i) e (worker_catch_up e (lag e i) w)"

text \<open>The module after \<open>push_byte\<close> has stored its byte and counted it.\<close>

definition stage :: "env \<Rightarrow> nat \<Rightarrow> byte \<Rightarrow> writer \<Rightarrow> writer" where
  "stage e i b w = (poke (cur_buff w) (used w) b (before_store e i w))\<lparr>used := used w + 1\<rparr>"

text \<open>The command \<open>push_byte\<close> sends for a full plane.\<close>

definition flush_cmd :: "plane \<Rightarrow> Command" where
  "flush_cmd p = \<lparr>op = OP_FLUSH, data = p, csize = BUFF_SIZE\<rparr>"

text \<open>The module after \<open>push_byte\<close> has filled the plane, sent the command and switched planes.\<close>

definition rotated :: "env \<Rightarrow> nat \<Rightarrow> byte \<Rightarrow> writer \<Rightarrow> writer" where
  "rotated e i b w =
     (let c = room e (stage e i b w)
      in (if send_ok e i then c\<lparr>queue := Some (the_queue c @ [flush_cmd (cur_buff w)])\<rparr> else c)
           \<lparr>cur_buff := other (cur_buff w), used := 0\<rparr>)"

text \<open>A run of \<open>writer_push\<close> calls that all return 0, with the flags they report.\<close>

fun pushes :: "(env \<times> byte \<times> bool) list \<Rightarrow> writer \<Rightarrow> (bool option list \<times> writer) option" where
  "pushes [] w = Some ([], w)"
| "pushes ((e, b, d) # xs) w =
     (case writer_push e b (Some d) w of
        None \<Rightarrow> None
      | Some (ret, dst, w') \<Rightarrow>
          if ret \<noteq> 0 then None
          else (case pushes xs w' of None \<Rightarrow> None | Some (ds, w'') \<Rightarrow> Some (dst # ds, w'')))"

text \<open>Every allocation of \<open>writer_start\<close> succeeds.\<close>

definition allocs_ok :: "env \<Rightarrow> bool" where
  "allocs_ok e \<longleftrightarrow> alloc_queue e \<and> alloc_mutex e \<and> alloc_events e \<and> alloc_task e"

text \<open>The command \<open>writer_finish\<close> sends.\<close>

definition exit_cmd :: "writer \<Rightarrow> Command" where
  "exit_cmd w = \<lparr>op = OP_EXIT, data = cur_buff w, csize = used w\<rparr>"

text \<open>A session just opened, the module after a finished session, a session with a byte
  written, and one whose file could not be opened.\<close>

definition session1 :: writer where
  "session1 = snd (writer_start env_ok (Some ''/output-001.csv'') writer_init)"

definition finished1 :: writer where
  "finished1 = snd (the (writer_finish env_ok session1))"

definition session1b :: writer where
  "session1b = stage env_ok 0 65 session1"

definition session_bad :: writer where
  "session_bad = snd (writer_start (env_ok\<lparr>open_ok := False\<rparr>) (Some ''/output-001.csv'') writer_init)"

text \<open>A call of \<open>writer_push\<close> or \<open>writer_puts\<close> with its arguments, and the bytes it hands over.\<close>

datatype wcall = Push byte "bool option" | Puts "byte list" "bool option"

fun payload :: "wcall \<Rightarrow> byte list" where
  "payload (Push b dst) = [b]"
| "payload (Puts s dst) = takeWhile (\<lambda>c. c \<noteq> 0) s"

fun do_write :: "env \<Rightarrow> wcall \<Rightarrow> writer \<Rightarrow> (int \<times> bool option \<times> writer) option" where
  "do_write e (Push b dst) w = writer_push e b dst w"
| "do_write e (Puts s dst) w = writer_puts e s dst w"

text \<open>A sequence of writes that all return 0.\<close>

fun writes :: "(env \<times> wcall) list \<Rightarrow> writer \<Rightarrow> writer option" where
  "writes [] w = Some w"
| "writes ((e, c) # cs) w =
     (case do_write e c w of
        None \<Rightarrow> None
      | Some (ret, dst, w') \<Rightarrow> if ret \<noteq> 0 then None else writes cs w')"

text \<open>A whole session that starts in the module state \<open>w0\<close>: a start, writes that all
  return 0, and a finish that returns 0; the result is the task with its file.\<close>

definition session ::
  "writer \<Rightarrow> env \<Rightarrow> string \<Rightarrow> (env \<times> wcall) list \<Rightarrow> env \<Rightarrow> writer_task option" where
  "session w0 e0 path cs e1 =
     (case writes cs (snd (writer_start e0 (Some path) w0)) of
        None \<Rightarrow> None
      | Some w \<Rightarrow>
          (case writer_finish e1 w of
             None \<Rightarrow> None
           | Some (ret, w') \<Rightarrow> if ret \<noteq> 0 then None else Some (wt w')))"

text \<open>Whenever a byte is stored, the task has finished all the commands sent but at most one.\<close>

definition keeps_pace :: "env \<Rightarrow> bool" where
  "keeps_pace e \<longleftrightarrow> (\<forall>i. lag e i \<le> 1)"

text \<open>At most two commands are not finished; a single one refers to the plane that is not
  being filled, and there are two only right after a rotation.\<close>

definition shape :: "writer \<Rightarrow> bool" where
  "shape w \<longleftrightarrow>
     (case unfinished w of
        [] \<Rightarrow> True
      | [c] \<Rightarrow> data c = other (cur_buff w)
      | [c, c'] \<Rightarrow> data c = cur_buff w \<and> data c' = other (cur_buff w) \<and> used w = 0
      | _ \<Rightarrow> False)"

text \<open>Every byte accepted and not lost: on the card, in commands not finished, in the active
  plane.\<close>

definition content :: "writer \<Rightarrow> byte list" where
  "content w = flushed w @ take (used w) (peek (cur_buff w) w)"

text \<open>The invariant of a session in which the task keeps pace.\<close>

definition inv :: "byte list \<Rightarrow> writer \<Rightarrow> bool" where
  "inv bs w \<longleftrightarrow>
     session_ok w \<and> shape w \<and> chunk_ok w \<and> (\<not> error (wt w) \<longrightarrow> content w = bs)"

text \<open>The card accepts every write in full and every sync.\<close>

definition io_fine :: "env \<Rightarrow> bool" where
  "io_fine e \<longleftrightarrow> (\<forall>n k. fst (io e n) k = k \<and> snd (io e n))"

text \<open>An environment in which the task does not work while bytes are stored, as long as no
  more than \<open>QUEUE_DEPTH\<close> commands are unfinished.\<close>

definition env_lazy :: env where
  "env_lazy = env_ok\<lparr>lag := \<lambda>_. QUEUE_DEPTH\<rparr>"

text \<open>An environment in which, when a byte is stored, the task has at most one command
  unfinished and may be some steps into it.\<close>

definition env_pace :: env where
  "env_pace = env_ok\<lparr>lag := \<lambda>_. 1, ahead := \<lambda>_. 5\<rparr>"

text \<open>Two planes full of text and one byte more.\<close>

definition long_text :: "byte list" where
  "long_text = replicate BUFF_SIZE 65 @ replicate BUFF_SIZE 66 @ [67]"

text \<open>The mutex is taken, every send is accepted and the card never fails.\<close>

definition env_fine :: "env \<Rightarrow> bool" where
  "env_fine e \<longleftrightarrow> take_ok e \<and> (\<forall>i. send_ok e i) \<and> io_fine e"

text \<open>An environment like \<open>env_lazy\<close> in which the task takes one step of its own before a
  byte is stored.\<close>

definition env_take :: env where
  "env_take = env_ok\<lparr>lag := \<lambda>_. QUEUE_DEPTH, ahead := \<lambda>_. 1\<rparr>"

section \<open>The recorder's ticks\<close>

lemmas st_defs = ST_IDLE_def ST_READY_def ST_RECORD_def ST_FIN_def ST_ERROR_def

lemmas tr_defs = transition_to_idle_def transition_to_ready_def transition_to_record_def
  transition_to_fin_def transition_to_error_def

lemmas proc_defs = do_idle_state_proc_def do_ready_state_proc_def do_record_state_proc_def
  do_fin_state_proc_def start_writer_task_def output_data_def stop_writer_task_def

text \<open>
  C4. In the Recording state a tick that receives a newline together with the hold signal
  pushes the newline to the writer, closes the writer and goes to Idle, not to FinishWait.
  For the inputs hold, \<open>a\<close>, \<open>b\<close>, \<open>c\<close>, newline, newline with hold, starting in Idle,
  the recorder passes through ReadyWait (four ticks), Recording and Idle; of the received
  bytes only the last newline reaches the writer.
\<close>

theorem record_newline_hold_closes:
  "main_state r = ST_RECORD \<Longrightarrow>
     loop path (Some 10) True r =
       r\<lparr>main_state := ST_IDLE, led := (if enableDatetime r then Blue else DarkCyan),
         calls := calls r @ [WriterPush 10, SerialPrint 10, WriterFinish]\<rparr> \<and>
     main_state (loop path (Some 10) True r) \<noteq> ST_FIN \<and>
     map main_state
       (ticks path [(None, True), (Some 97, False), (Some 98, False), (Some 99, False),
                    (Some 10, False), (Some 10, True)] (recorder_idle dt)) =
       [ST_READY, ST_READY, ST_READY, ST_READY, ST_RECORD, ST_IDLE] \<and>
     calls (last
       (ticks path [(None, True), (Some 97, False), (Some 98, False), (Some 99, False),
                    (Some 10, False), (Some 10, True)] (recorder_idle dt))) =
       [WriterStart path, WriterPuts bom, WriterPuts csv_header,
        WriterPush 10, SerialPrint 10, WriterFinish]"
  by (simp add: loop_def st_defs tr_defs proc_defs recorder_idle_def)

theorem record_newline_hold_closes_witness:
  "main_state \<lparr>main_state = 2, led = DarkGreen, enableDatetime = False, calls = []\<rparr> = ST_RECORD \<and>
   loop ''/output-001.csv'' (Some 10) True
     \<lparr>main_state = 2, led = DarkGreen, enableDatetime = False, calls = []\<rparr> =
     \<lparr>main_state = 0, led = DarkCyan, enableDatetime = False,
      calls = [WriterPush 10, SerialPrint 10, WriterFinish]\<rparr>"
  using record_newline_hold_closes
    [of "\<lparr>main_state = 2, led = DarkGreen, enableDatetime = False, calls = []\<rparr>"
        "''/output-001.csv''" False]
  by (simp add: st_defs)

text \<open>
  C9. A received byte 0 is treated as no byte: in every state a tick on the byte 0 leaves
  the recorder exactly as the tick without a byte does, without the hold signal it changes
  nothing at all (so it is no line boundary), and it adds no \<open>writer_push\<close> to the
  calls made.
\<close>

theorem nul_byte_is_no_input:
  "loop path (Some 0) btn r = loop path None btn r \<and>
   loop path (Some 0) False r = r \<and>
   filter is_push (calls (loop path (Some 0) btn r)) = filter is_push (calls r)"
  by (simp add: loop_def st_defs tr_defs proc_defs is_push_def)

section \<open>What the task leaves alone\<close>

lemma worker_step_keeps [simp]:
  "state (worker_step e w) = state w"
  "mutex (worker_step e w) = mutex w"
  "task (worker_step e w) = task w"
  "buff_plane1 (worker_step e w) = buff_plane1 w"
  "buff_plane2 (worker_step e w) = buff_plane2 w"
  "cur_buff (worker_step e w) = cur_buff w"
  "used (worker_step e w) = used w"
  by (simp_all add: worker_step_def Let_def split: option.splits list.splits prod.splits)

lemma worker_run_keeps [simp]:
  "state (worker_run n e w) = state w"
  "mutex (worker_run n e w) = mutex w"
  "task (worker_run n e w) = task w"
  "buff_plane1 (worker_run n e w) = buff_plane1 w"
  "buff_plane2 (worker_run n e w) = buff_plane2 w"
  "cur_buff (worker_run n e w) = cur_buff w"
  "used (worker_run n e w) = used w"
  by (induction n arbitrary: w; simp)+

lemma worker_until_keeps [simp]:
  "state (worker_until P n e w) = state w"
  "mutex (worker_until P n e w) = mutex w"
  "task (worker_until P n e w) = task w"
  "buff_plane1 (worker_until P n e w) = buff_plane1 w"
  "buff_plane2 (worker_until P n e w) = buff_plane2 w"
  "cur_buff (worker_until P n e w) = cur_buff w"
  "used (worker_until P n e w) = used w"
  by (induction n arbitrary: w; simp)+

lemma worker_catch_up_keeps [simp]:
  "state (worker_catch_up e k w) = state w"
  "mutex (worker_catch_up e k w) = mutex w"
  "task (worker_catch_up e k w) = task w"
  "buff_plane1 (worker_catch_up e k w) = buff_plane1 w"
  "buff_plane2 (worker_catch_up e k w) = buff_plane2 w"
  "cur_buff (worker_catch_up e k w) = cur_buff w"
  "used (worker_catch_up e k w) = used w"
  by (simp_all add: worker_catch_up_def)

lemma peek_worker [simp]:
  "peek p (worker_step e w) = peek p w"
  "peek p (worker_run n e w) = peek p w"
  "peek p (worker_until P n e w) = peek p w"
  "peek p (worker_catch_up e k w) = peek p w"
  by (simp_all add: peek_def split: plane.splits)

lemma xQueueSend_keeps:
  assumes "xQueueSend e i cmd w = Some (ok, w')"
  shows "state w' = state w" "mutex w' = mutex w" "task w' = task w"
    "buff_plane1 w' = buff_plane1 w" "buff_plane2 w' = buff_plane2 w"
    "cur_buff w' = cur_buff w" "used w' = used w"
  using assms by (auto simp: xQueueSend_def Let_def split: option.splits if_splits)

lemma xEventGroupWaitBits_keeps:
  assumes "xEventGroupWaitBits e w = Some w'"
  shows "buff_plane1 w' = buff_plane1 w" "buff_plane2 w' = buff_plane2 w"
    "cur_buff w' = cur_buff w" "used w' = used w" "state w' = state w"
  using assms by (auto simp: xEventGroupWaitBits_def Let_def split: if_splits)

lemma poke_keeps [simp]:
  "state (poke p i b w) = state w"
  "mutex (poke p i b w) = mutex w"
  "task (poke p i b w) = task w"
  "queue (poke p i b w) = queue w"
  "events (poke p i b w) = events w"
  "wt (poke p i b w) = wt w"
  "taken (poke p i b w) = taken w"
  "cur_buff (poke p i b w) = cur_buff w"
  "used (poke p i b w) = used w"
  "length (buff_plane1 (poke p i b w)) = length (buff_plane1 w)"
  "length (buff_plane2 (poke p i b w)) = length (buff_plane2 w)"
  by (simp_all add: poke_def split: plane.splits)

section \<open>The branches of the public functions\<close>

lemma write_null_mutex:
  assumes "\<not> mutex w"
  shows "writer_push e b dst w = None" and "writer_puts e s dst w = None"
    and "writer_finish e w = None"
  using assms by (simp_all add: writer_push_def writer_puts_def writer_finish_def xSemaphoreTake_def)

lemma writer_finish_no_lock:
  "mutex w \<Longrightarrow> \<not> take_ok e \<Longrightarrow>
     writer_finish e w = Some (if state w \<noteq> 1 then 397 else 390, w)"
  by (simp add: writer_finish_def xSemaphoreTake_def)

lemma writer_finish_lock:
  "mutex w \<Longrightarrow> take_ok e \<Longrightarrow>
     writer_finish e w =
       (case xQueueSend e 0 \<lparr>op = OP_EXIT, data = cur_buff w, csize = used w\<rparr> w of
          None \<Rightarrow> None
        | Some (ok, w1) \<Rightarrow>
            if \<not> ok then Some (410, w1)
            else (case xEventGroupWaitBits e w1 of
                    None \<Rightarrow> None
                  | Some w2 \<Rightarrow> Some (0, closed w2)))"
  by (simp add: writer_finish_def xSemaphoreTake_def closed_def split: option.splits)

lemma write_closed:
  assumes "mutex w" "state w \<noteq> 1"
  shows "writer_push e b dst w = Some (if take_ok e then 345 else 338, dst, w)"
    and "writer_puts e s dst w = Some (if take_ok e then 286 else 279, dst, w)"
  using assms by (simp_all add: writer_push_def writer_puts_def xSemaphoreTake_def)

lemma write_no_lock:
  assumes "mutex w" "\<not> take_ok e"
  shows "writer_push e b dst w = Some (338, dst, w)"
    and "writer_puts e s dst w = Some (279, dst, w)"
  using assms by (simp_all add: writer_push_def writer_puts_def xSemaphoreTake_def)

lemma writer_push_session:
  assumes "mutex w" "state w = 1"
  shows "writer_push e b dst w =
           (if take_ok e
            then (case push_byte e 0 b False w of
                    None \<Rightarrow> None
                  | Some (err, wrote, w1) \<Rightarrow>
                      Some (if err \<noteq> 0 then 353 else 0,
                            if err = 0 \<and> dst \<noteq> None then Some wrote else dst, w1))
            else Some (338, dst, w))"
  using assms by (auto simp: writer_push_def xSemaphoreTake_def split: option.splits)

lemma writer_puts_session:
  assumes "mutex w" "state w = 1"
  shows "writer_puts e s dst w =
           (if take_ok e
            then (case puts_loop e 0 s False w of
                    None \<Rightarrow> None
                  | Some (ret, wrote, w1) \<Rightarrow>
                      Some (ret, if ret = 0 \<and> dst \<noteq> None then Some wrote else dst, w1))
            else Some (279, dst, w))"
  using assms by (auto simp: writer_puts_def xSemaphoreTake_def split: option.splits)

section \<open>The fill length stays inside the plane\<close>

lemma push_byte_planes_ok:
  assumes "planes_ok w" "push_byte e i b dst w = Some (r, dst', w')"
  shows "planes_ok w'"
  using assms
  by (auto simp: push_byte_def Let_def planes_ok_def xQueueSend_keeps
           split: option.splits if_splits)

lemma puts_loop_planes_ok:
  "planes_ok w \<Longrightarrow> puts_loop e i s wrote w = Some (r, wrote', w') \<Longrightarrow> planes_ok w'"
proof (induction s arbitrary: i wrote w)
  case Nil
  then show ?case by simp
next
  case (Cons c s)
  show ?case
  proof (cases "c = 0")
    case True
    with Cons.prems show ?thesis by simp
  next
    case False
    with Cons.prems obtain err wr w1 where
      pb: "push_byte e i c wrote w = Some (err, wr, w1)"
      by (auto split: option.splits)
    then have ok1: "planes_ok w1"
      using Cons.prems(1) push_byte_planes_ok by blast
    show ?thesis
    proof (cases "err = 0")
      case True
      with False pb Cons.prems(2) have "puts_loop e (i + 1) s wr w1 = Some (r, wrote', w')"
        by simp
      with Cons.IH ok1 show ?thesis by blast
    next
      case False
      with \<open>c \<noteq> 0\<close> pb Cons.prems(2) have "w' = w1" by simp
      with ok1 show ?thesis by simp
    qed
  qed
qed

lemma writer_puts_planes_ok:
  "planes_ok w \<Longrightarrow> writer_puts e s dst w = Some (r, dst', w') \<Longrightarrow> planes_ok w'"
  by (auto simp: writer_puts_def xSemaphoreTake_def Let_def split: option.splits if_splits
           dest: puts_loop_planes_ok)

lemma writer_push_planes_ok:
  "planes_ok w \<Longrightarrow> writer_push e b dst w = Some (r, dst', w') \<Longrightarrow> planes_ok w'"
  by (auto simp: writer_push_def xSemaphoreTake_def Let_def split: option.splits if_splits
           dest: push_byte_planes_ok)

lemma writer_start_keeps:
  "buff_plane1 (snd (writer_start e path w)) = buff_plane1 w"
  "buff_plane2 (snd (writer_start e path w)) = buff_plane2 w"
  "cur_buff (snd (writer_start e path w)) = cur_buff w"
  "used (snd (writer_start e path w)) = used w"
  by (simp_all add: writer_start_def Let_def)

lemma writer_start_planes_ok:
  "planes_ok w \<Longrightarrow> writer_start e path w = (r, w') \<Longrightarrow> planes_ok w'"
  using writer_start_keeps [of e path w] by (simp add: planes_ok_def)

lemma writer_finish_planes_ok:
  assumes "planes_ok w" "writer_finish e w = Some (r, w')"
  shows "planes_ok w'"
proof -
  from assms(2) have m: "mutex w" using write_null_mutex(3) [of w e] by auto
  show ?thesis
  proof (cases "take_ok e")
    case False
    with assms m show ?thesis by (simp add: writer_finish_no_lock)
  next
    case True
    from assms(2) obtain ok w1 where
      snd: "xQueueSend e 0 \<lparr>op = OP_EXIT, data = cur_buff w, csize = used w\<rparr> w = Some (ok, w1)"
      by (auto simp: writer_finish_lock [OF m True] split: option.splits)
    have w1: "planes_ok w1"
      using assms(1) xQueueSend_keeps [OF snd] by (simp add: planes_ok_def)
    show ?thesis
    proof (cases ok)
      case False
      with assms(2) snd have "w' = w1" by (simp add: writer_finish_lock [OF m True])
      with w1 show ?thesis by simp
    next
      case True
      with assms(2) snd obtain w2 where
        "xEventGroupWaitBits e w1 = Some w2" "w' = closed w2"
        by (auto simp: writer_finish_lock [OF m \<open>take_ok e\<close>] split: option.splits)
      with w1 show ?thesis
        by (simp add: planes_ok_def closed_def xEventGroupWaitBits_keeps)
    qed
  qed
qed

lemma planes_ok_init: "planes_ok writer_init"
  by (simp add: planes_ok_def writer_init_def BUFF_SIZE_def)

lemma reachable_planes_ok: "reachable w \<Longrightarrow> planes_ok w"
  by (induction rule: reachable.induct)
     (auto intro: planes_ok_init writer_start_planes_ok writer_puts_planes_ok
                  writer_push_planes_ok writer_finish_planes_ok)

text \<open>
  C8. In every state the public functions can produce, the fill length of the active plane
  is below the capacity, and so below the length of the plane \<open>push_byte\<close> stores into.
  The reachable states are closed under \<open>writer_start\<close>, \<open>writer_push\<close>, \<open>writer_puts\<close>
  and \<open>writer_finish\<close>, so the bound holds after each of them.
\<close>

theorem used_in_bounds:
  "reachable w \<Longrightarrow>
     used w < BUFF_SIZE \<and> used w < length (peek (cur_buff w) w)"
  using reachable_planes_ok [of w]
  by (simp add: planes_ok_def peek_def split: plane.splits)

theorem used_in_bounds_witness:
  "reachable (snd (writer_start env_ok (Some ''/output-001.csv'') writer_init)) \<and>
   used (snd (writer_start env_ok (Some ''/output-001.csv'') writer_init)) < BUFF_SIZE"
proof -
  have r: "reachable (snd (writer_start env_ok (Some ''/output-001.csv'') writer_init))"
    by (rule reachable.start [OF reachable.init, where e = env_ok
          and path = "Some ''/output-001.csv''"
          and r = "fst (writer_start env_ok (Some ''/output-001.csv'') writer_init)"])
       simp
  from used_in_bounds [OF r] r show ?thesis by simp
qed

section \<open>One turn of the task and runs of its loop\<close>

lemma task_iter_facts:
  "received (task_iter r mem cmd t) = received t @ [cmd]"
  "alive (task_iter r mem cmd t) = (alive t \<and> op cmd \<noteq> OP_EXIT)"
  "error t \<Longrightarrow> error (task_iter r mem cmd t)"
  "\<not> error (task_iter r mem cmd t) \<Longrightarrow>
     stored (task_iter r mem cmd t) = stored t @ take (csize cmd) mem"
  "error t \<Longrightarrow>
     effects (task_iter r mem cmd t) =
       effects t @ (if op cmd = OP_EXIT then [FileClose, SetBits] else [])"
  "op cmd = OP_EXIT \<Longrightarrow>
     take 2 (rev (effects (task_iter r mem cmd t))) = [SetBits, FileClose]"
  by (auto simp: task_iter_def Let_def split: if_splits)

lemma flush_only_simps [simp]:
  "flush_only []"
  "flush_only (c # q) \<longleftrightarrow> op c = OP_FLUSH \<and> flush_only q"
  "flush_only (q @ q') \<longleftrightarrow> flush_only q \<and> flush_only q'"
  by (simp_all add: flush_only_def)

lemma flush_only_take: "flush_only q \<Longrightarrow> flush_only (take n q)"
  by (simp add: flush_only_def list_all_iff) (meson in_set_takeD)

lemma flush_only_drop: "flush_only q \<Longrightarrow> flush_only (drop n q)"
  by (simp add: flush_only_def list_all_iff) (meson in_set_dropD)

lemma task_run_dead [simp]: "\<not> alive t \<Longrightarrow> task_run xs t = t"
  by (cases xs) auto

lemma task_run_append: "task_run (xs @ ys) t = task_run ys (task_run xs t)"
  by (induction xs arbitrary: t) auto

lemma task_run_error:
  "error t \<Longrightarrow>
     error (task_run ys t) \<and>
     filter is_phys (effects (task_run ys t)) = filter is_phys (effects t)"
proof (induction ys arbitrary: t)
  case Nil
  then show ?case by simp
next
  case (Cons y ys)
  obtain r mem cmd where y: "y = (r, mem, cmd)" by (cases y)
  show ?case
  proof (cases "alive t")
    case False
    with Cons.prems show ?thesis by simp
  next
    case True
    have e: "error (task_iter r mem cmd t)" using Cons.prems by (rule task_iter_facts(3))
    have "filter is_phys (effects (task_iter r mem cmd t)) = filter is_phys (effects t)"
      using Cons.prems by (simp add: task_iter_facts(5) is_phys_def)
    with Cons.IH [OF e] True y show ?thesis by simp
  qed
qed

lemma task_run_received:
  "alive t \<Longrightarrow>
     received (task_run xs t) = received t @ until_exit (map (snd \<circ> snd) xs) \<and>
     alive (task_run xs t) = (OP_EXIT \<notin> set (map (op \<circ> snd \<circ> snd) xs)) \<and>
     (OP_EXIT \<in> set (map (op \<circ> snd \<circ> snd) xs) \<longrightarrow>
        take 2 (rev (effects (task_run xs t))) = [SetBits, FileClose])"
proof (induction xs arbitrary: t)
  case Nil
  then show ?case by simp
next
  case (Cons x xs)
  obtain r mem cmd where x: "x = (r, mem, cmd)" by (cases x)
  show ?case
  proof (cases "op cmd = OP_EXIT")
    case True
    then have "\<not> alive (task_iter r mem cmd t)" by (simp add: task_iter_facts)
    with True Cons.prems x show ?thesis
      by (simp add: task_iter_facts)
  next
    case False
    then have "alive (task_iter r mem cmd t)" using Cons.prems by (simp add: task_iter_facts)
    from Cons.IH [OF this] False Cons.prems x show ?thesis
      by (simp add: task_iter_facts)
  qed
qed

lemma task_iter_failure:
  "\<not> error t \<Longrightarrow> 0 < csize cmd \<Longrightarrow> fst r (csize cmd) \<noteq> csize cmd \<or> \<not> snd r \<Longrightarrow>
     error (task_iter r mem cmd t)"
  by (auto simp: task_iter_def Let_def)

lemma evolves_refl [simp]: "evolves t t"
  unfolding evolves_def by (rule exI [of _ "[]"]) simp

lemma evolves_trans: "evolves t t' \<Longrightarrow> evolves t' t'' \<Longrightarrow> evolves t t''"
  unfolding evolves_def by (metis task_run_append)

lemma evolves_error:
  assumes "evolves t t'" "error t"
  shows "error t'" "filter is_phys (effects t') = filter is_phys (effects t)"
  using assms task_run_error unfolding evolves_def by blast+

section \<open>The steps of the task\<close>

lemma worker_run_add: "worker_run (n + m) e w = worker_run m e (worker_run n e w)"
  by (induction n arbitrary: w) simp_all

lemma pending_simps [simp]:
  "pending w [] = []"
  "pending w (c # q) = take (csize c) (peek (data c) w) @ pending w q"
  "pending w (q @ q') = pending w q @ pending w q'"
  by (simp_all add: pending_def)

lemma pending_cong_peek:
  "(\<And>p. peek p w' = peek p w) \<Longrightarrow> pending w' q = pending w q"
  by (simp add: pending_def)

lemma worker_step_cases [case_names dead idle take read turn]:
  obtains
    (dead) "\<not> alive (wt w)" "worker_step e w = w"
  | (idle) "alive (wt w)" "taken w = None" "the_queue w = []" "worker_step e w = w"
  | (take) c q where "alive (wt w)" "taken w = None" "queue w = Some (c # q)"
      "worker_step e w = w\<lparr>queue := Some q, taken := Some (c, [])\<rparr>"
  | (read) c chunk where "alive (wt w)" "taken w = Some (c, chunk)" "\<not> error (wt w)"
      "length chunk < csize c" "length chunk < length (peek (data c) w)"
      "worker_step e w = w\<lparr>taken := Some (c, chunk @ [peek (data c) w ! length chunk])\<rparr>"
  | (turn) c chunk where "alive (wt w)" "taken w = Some (c, chunk)"
      "error (wt w) \<or> csize c \<le> length chunk \<or> length (peek (data c) w) \<le> length chunk"
      "worker_step e w =
         w\<lparr>taken := None,
           wt := task_iter (io e (length (received (wt w)))) chunk c (wt w),
           events := (if op c \<noteq> OP_EXIT then events w
                      else map_option (\<lambda>_. True) (events w))\<rparr>"
proof (cases "alive (wt w)")
  case False
  then show ?thesis using dead by (simp add: worker_step_def)
next
  case a: True
  show ?thesis
  proof (cases "taken w")
    case None
    show ?thesis
    proof (cases "the_queue w")
      case Nil
      then have "worker_step e w = w"
        using a None by (simp add: worker_step_def the_queue_def split: option.splits)
      with a None Nil show ?thesis using idle by blast
    next
      case (Cons c q)
      then have q: "queue w = Some (c # q)"
        by (simp add: the_queue_def split: option.splits)
      then have "worker_step e w = w\<lparr>queue := Some q, taken := Some (c, [])\<rparr>"
        using a None by (simp add: worker_step_def)
      with a None q show ?thesis using take by blast
    qed
  next
    case (Some x)
    obtain c chunk where x: "x = (c, chunk)" by (cases x)
    show ?thesis
    proof (cases "\<not> error (wt w) \<and> length chunk < csize c \<and>
                  length chunk < length (peek (data c) w)")
      case True
      then have "worker_step e w =
                   w\<lparr>taken := Some (c, chunk @ [peek (data c) w ! length chunk])\<rparr>"
        using a Some x by (simp add: worker_step_def)
      with a Some x True show ?thesis using read by blast
    next
      case False
      then have "worker_step e w =
         w\<lparr>taken := None,
           wt := task_iter (io e (length (received (wt w)))) chunk c (wt w),
           events := (if op c \<noteq> OP_EXIT then events w
                      else map_option (\<lambda>_. True) (events w))\<rparr>"
        using a Some x by (auto simp: worker_step_def Let_def task_iter_facts)
      moreover from False have
        "error (wt w) \<or> csize c \<le> length chunk \<or> length (peek (data c) w) \<le> length chunk"
        by auto
      ultimately show ?thesis using a Some x turn by blast
    qed
  qed
qed

lemma worker_step_sent: "sent (worker_step e w) = sent w"
  by (cases rule: worker_step_cases [of w e])
     (simp_all add: sent_def unfinished_def the_queue_def task_iter_facts)

lemma worker_step_unfinished:
  "unfinished (worker_step e w) = unfinished w \<or>
   unfinished (worker_step e w) = tl (unfinished w)"
  by (cases rule: worker_step_cases [of w e])
     (simp_all add: unfinished_def the_queue_def)

lemma worker_step_queue: "(queue (worker_step e w) = None) = (queue w = None)"
  by (cases rule: worker_step_cases [of w e]) simp_all

lemma worker_step_evolves: "evolves (wt w) (wt (worker_step e w))"
proof (cases rule: worker_step_cases [of w e])
  case (turn c chunk)
  then have "wt (worker_step e w) =
               task_run [(io e (length (received (wt w))), chunk, c)] (wt w)"
    by simp
  then show ?thesis unfolding evolves_def by blast
qed simp_all

lemma worker_step_live:
  assumes "alive (wt w)" "flush_only (unfinished w)"
  shows "alive (wt (worker_step e w))"
    and "events (worker_step e w) = events w"
    and "flush_only (unfinished (worker_step e w))"
    and "error (wt w) \<Longrightarrow> effects (wt (worker_step e w)) = effects (wt w)"
proof -
  have "alive (wt (worker_step e w)) \<and> events (worker_step e w) = events w \<and>
        flush_only (unfinished (worker_step e w)) \<and>
        (error (wt w) \<longrightarrow> effects (wt (worker_step e w)) = effects (wt w))"
    using assms
    by (cases rule: worker_step_cases [of w e])
       (auto simp: unfinished_def the_queue_def task_iter_facts)
  then show "alive (wt (worker_step e w))" "events (worker_step e w) = events w"
    "flush_only (unfinished (worker_step e w))"
    "error (wt w) \<Longrightarrow> effects (wt (worker_step e w)) = effects (wt w)"
    by simp_all
qed

lemma chunk_done:
  assumes "length chunk \<le> n" "chunk = take (length chunk) xs"
    and "n \<le> length chunk \<or> length xs \<le> length chunk"
  shows "take n chunk = take n xs"
proof -
  from assms(1) have a: "take n chunk = chunk" by simp
  from assms(3) show ?thesis
  proof
    assume "n \<le> length chunk"
    with assms(1) have "length chunk = n" by simp
    with assms(2) a show ?thesis by simp
  next
    assume l: "length xs \<le> length chunk"
    with assms(2) have "chunk = xs" by simp
    then show ?thesis by simp
  qed
qed

lemma worker_step_data:
  assumes "chunk_ok w"
  shows "chunk_ok (worker_step e w)"
    and "\<not> error (wt (worker_step e w)) \<Longrightarrow> flushed (worker_step e w) = flushed w"
proof -
  show "chunk_ok (worker_step e w)"
    using assms
    by (cases rule: worker_step_cases [of w e])
       (auto simp: chunk_ok_def take_Suc_conv_app_nth peek_def split: plane.splits)
  show "flushed (worker_step e w) = flushed w" if ne: "\<not> error (wt (worker_step e w))"
  proof (cases rule: worker_step_cases [of w e])
    case (turn c chunk)
    let ?t = "task_iter (io e (length (received (wt w)))) chunk c (wt w)"
    from ne turn(4) have net: "\<not> error ?t" by simp
    then have new: "\<not> error (wt w)" using task_iter_facts(3) by blast
    from assms turn(2) have ck: "length chunk \<le> csize c"
      "chunk = take (length chunk) (peek (data c) w)"
      by (simp_all add: chunk_ok_def)
    from turn(3) new have
      "csize c \<le> length chunk \<or> length (peek (data c) w) \<le> length chunk" by simp
    from chunk_done [OF ck this] have "take (csize c) chunk = take (csize c) (peek (data c) w)" .
    with task_iter_facts(4) [OF net] have
      st: "stored ?t = stored (wt w) @ take (csize c) (peek (data c) w)" by simp
    have pk: "pending (worker_step e w) (the_queue w) = pending w (the_queue w)"
      by (rule pending_cong_peek) simp
    show ?thesis
      using st pk turn(2)
      by (simp add: flushed_def unfinished_def turn(4) the_queue_def)
  next
    case (take c q)
    have pk: "\<And>q. pending (worker_step e w) q = pending w q"
      by (rule pending_cong_peek) simp
    show ?thesis
      using take(2,3) by (simp add: flushed_def pk) (simp add: unfinished_def the_queue_def take(4))
  next
    case (read c chunk)
    have pk: "\<And>q. pending (worker_step e w) q = pending w q"
      by (rule pending_cong_peek) simp
    show ?thesis
      using read(2) by (simp add: flushed_def pk) (simp add: unfinished_def the_queue_def read(6))
  qed simp_all
qed

lemma work_left_pos: "unfinished w \<noteq> [] \<Longrightarrow> 0 < work_left w"
  by (cases "taken w"; cases "the_queue w") (auto simp: unfinished_def work_left_def)

lemma worker_step_progress:
  assumes "alive (wt w)" "unfinished w \<noteq> []"
  shows "work_left (worker_step e w) < work_left w"
  using assms
  by (cases rule: worker_step_cases [of w e])
     (auto simp: unfinished_def work_left_def the_queue_def)

lemma worker_step_rest:
  "\<not> alive (wt w) \<or> unfinished w = [] \<Longrightarrow> worker_step e w = w"
  by (cases rule: worker_step_cases [of w e]) (auto simp: unfinished_def the_queue_def)

section \<open>Runs of the task\<close>

lemma worker_until_run: "\<exists>m. m \<le> n \<and> worker_until P n e w = worker_run m e w"
proof (induction n arbitrary: w)
  case 0
  then show ?case by simp
next
  case (Suc n)
  show ?case
  proof (cases "P w")
    case True
    then have "worker_until P (Suc n) e w = worker_run 0 e w" by simp
    then show ?thesis by blast
  next
    case False
    from Suc.IH [of "worker_step e w"] obtain m where
      "m \<le> n" "worker_until P n e (worker_step e w) = worker_run m e (worker_step e w)"
      by blast
    with False have "Suc m \<le> Suc n \<and> worker_until P (Suc n) e w = worker_run (Suc m) e w"
      by simp
    then show ?thesis by blast
  qed
qed

lemma worker_until_idle: "P w \<Longrightarrow> worker_until P n e w = w"
  by (cases n) simp_all

lemma worker_run_sent: "sent (worker_run n e w) = sent w"
  by (induction n arbitrary: w) (simp_all add: worker_step_sent)

lemma worker_run_queue: "(queue (worker_run n e w) = None) = (queue w = None)"
  by (induction n arbitrary: w) (simp_all add: worker_step_queue)

lemma worker_run_evolves: "evolves (wt w) (wt (worker_run n e w))"
proof (induction n arbitrary: w)
  case 0
  then show ?case by simp
next
  case (Suc n)
  from evolves_trans [OF worker_step_evolves Suc.IH] show ?case by simp
qed

lemma worker_run_unfinished: "\<exists>j. unfinished (worker_run n e w) = drop j (unfinished w)"
proof (induction n arbitrary: w)
  case 0
  show ?case by (intro exI [of _ 0]) simp
next
  case (Suc n)
  from Suc.IH [of "worker_step e w"] obtain j where
    j: "unfinished (worker_run n e (worker_step e w)) = drop j (unfinished (worker_step e w))"
    by blast
  from worker_step_unfinished [of e w] show ?case
  proof
    assume "unfinished (worker_step e w) = unfinished w"
    with j show ?thesis by auto
  next
    assume "unfinished (worker_step e w) = tl (unfinished w)"
    with j have "unfinished (worker_run (Suc n) e w) = drop (Suc j) (unfinished w)"
      by (simp add: drop_Suc)
    then show ?thesis by blast
  qed
qed

lemma worker_run_live:
  "alive (wt w) \<Longrightarrow> flush_only (unfinished w) \<Longrightarrow>
     alive (wt (worker_run n e w)) \<and> events (worker_run n e w) = events w \<and>
     flush_only (unfinished (worker_run n e w)) \<and>
     (error (wt w) \<longrightarrow> effects (wt (worker_run n e w)) = effects (wt w))"
proof (induction n arbitrary: w)
  case 0
  then show ?case by simp
next
  case (Suc n)
  note s = worker_step_live [OF Suc.prems, of e]
  have "error (wt (worker_step e w))" if "error (wt w)"
    using evolves_error(1) [OF worker_step_evolves that] .
  with Suc.IH [OF s(1,3)] s(2,4) show ?case by auto
qed

lemma worker_run_data:
  "chunk_ok w \<Longrightarrow>
     chunk_ok (worker_run n e w) \<and>
     (\<not> error (wt (worker_run n e w)) \<longrightarrow> \<not> error (wt w) \<and> flushed (worker_run n e w) = flushed w)"
proof (induction n arbitrary: w)
  case 0
  then show ?case by simp
next
  case (Suc n)
  note s = worker_step_data [OF Suc.prems, of e]
  note ih = Suc.IH [OF s(1)]
  have "\<not> error (wt w)" if "\<not> error (wt (worker_step e w))"
    using evolves_error(1) [OF worker_step_evolves] that by blast
  with ih s(2) show ?case by auto
qed

lemma worker_run_task_ok:
  assumes "task_ok w" "w' = worker_run n e w"
  shows "task_ok w'" and "sent w' = sent w" and "events w' = events w"
    and "error (wt w) \<Longrightarrow> error (wt w')"
    and "error (wt w) \<Longrightarrow> effects (wt w') = effects (wt w)"
    and "\<exists>j. unfinished w' = drop j (unfinished w)"
    and "chunk_ok w \<Longrightarrow> chunk_ok w'"
    and "chunk_ok w \<Longrightarrow> \<not> error (wt w') \<Longrightarrow> \<not> error (wt w) \<and> flushed w' = flushed w"
proof -
  from assms(1) have a: "alive (wt w)" and f: "flush_only (unfinished w)"
    and fr: "flush_only (received (wt w))" and q: "queue w \<noteq> None"
    and ev: "events w = Some False"
    by (simp_all add: task_ok_def)
  note l = worker_run_live [OF a f, of n e]
  show s: "sent w' = sent w" by (simp add: assms(2) worker_run_sent)
  have "flush_only (sent w')" using fr f by (simp add: s) (simp add: sent_def)
  then have "flush_only (received (wt w'))" by (simp add: sent_def)
  then show "task_ok w'"
    using l ev q worker_run_queue [of n e w] by (simp add: task_ok_def assms(2))
  show "events w' = events w" using l by (simp add: assms(2))
  show "error (wt w')" if "error (wt w)"
    using evolves_error(1) [OF worker_run_evolves that] by (simp add: assms(2))
  show "effects (wt w') = effects (wt w)" if "error (wt w)"
    using that l by (simp add: assms(2))
  show "\<exists>j. unfinished w' = drop j (unfinished w)"
    using worker_run_unfinished [of n e w] by (simp add: assms(2))
  show "chunk_ok w'" if "chunk_ok w"
    using worker_run_data [OF that, of n e] by (simp add: assms(2))
  show "\<not> error (wt w) \<and> flushed w' = flushed w" if "chunk_ok w" "\<not> error (wt w')"
    using worker_run_data [OF that(1), of n e] that(2) by (simp add: assms(2))
qed

lemma worker_until_reaches:
  "alive (wt w) \<Longrightarrow> flush_only (unfinished w) \<Longrightarrow> (\<And>w. unfinished w = [] \<Longrightarrow> P w) \<Longrightarrow>
   work_left w \<le> n \<Longrightarrow> P (worker_until P n e w)"
proof (induction n arbitrary: w)
  case 0
  then have "unfinished w = []" using work_left_pos [of w] by auto
  with 0 show ?case by simp
next
  case (Suc n)
  show ?case
  proof (cases "P w")
    case True
    then show ?thesis by simp
  next
    case False
    with Suc.prems(3) have ne: "unfinished w \<noteq> []" by blast
    from worker_step_progress [OF Suc.prems(1) ne, of e] Suc.prems(4)
    have le: "work_left (worker_step e w) \<le> n" by simp
    note s = worker_step_live [OF Suc.prems(1,2), of e]
    from Suc.IH [OF s(1,3) Suc.prems(3) le] False show ?thesis by simp
  qed
qed

section \<open>The task before a store and before a send\<close>

lemma catch_up_run: "\<exists>n. worker_catch_up e k w = worker_run n e w"
  using worker_until_run [of "work_left w" "\<lambda>w. length (unfinished w) \<le> k" e w]
  by (auto simp: worker_catch_up_def)

lemma room_run: "\<exists>n. room e w = worker_run n e w"
  using worker_until_run [of "work_left w" "\<lambda>w. qlen w < QUEUE_DEPTH" e w]
  by (auto simp: room_def)

lemma before_store_run: "\<exists>n. before_store e i w = worker_run n e w"
proof -
  from catch_up_run [of e "lag e i" w] obtain n where
    "worker_catch_up e (lag e i) w = worker_run n e w" by blast
  then have "before_store e i w = worker_run (n + ahead e i) e w"
    by (simp add: before_store_def worker_run_add)
  then show ?thesis by blast
qed

text \<open>
  With a lag that is large enough the environment fixes the number of steps the task has
  taken before the store, and nothing else.
\<close>

lemma before_store_free:
  "length (unfinished w) \<le> lag e i \<Longrightarrow> before_store e i w = worker_run (ahead e i) e w"
  by (simp add: before_store_def worker_catch_up_def worker_until_idle)

lemma before_store_keeps [simp]:
  "state (before_store e i w) = state w"
  "mutex (before_store e i w) = mutex w"
  "task (before_store e i w) = task w"
  "buff_plane1 (before_store e i w) = buff_plane1 w"
  "buff_plane2 (before_store e i w) = buff_plane2 w"
  "cur_buff (before_store e i w) = cur_buff w"
  "used (before_store e i w) = used w"
  "peek p (before_store e i w) = peek p w"
  by (simp_all add: before_store_def)

lemma room_keeps [simp]:
  "state (room e w) = state w"
  "mutex (room e w) = mutex w"
  "task (room e w) = task w"
  "buff_plane1 (room e w) = buff_plane1 w"
  "buff_plane2 (room e w) = buff_plane2 w"
  "cur_buff (room e w) = cur_buff w"
  "used (room e w) = used w"
  "peek p (room e w) = peek p w"
  by (simp_all add: room_def)

lemma catch_up_task_ok:
  assumes "task_ok w"
  shows "task_ok (worker_catch_up e k w)"
    and "length (unfinished (worker_catch_up e k w)) \<le> k"
proof -
  from catch_up_run [of e k w] obtain n where n: "worker_catch_up e k w = worker_run n e w"
    by blast
  show "task_ok (worker_catch_up e k w)"
    by (rule worker_run_task_ok(1) [OF assms n])
  from assms have "alive (wt w)" "flush_only (unfinished w)" by (simp_all add: task_ok_def)
  from worker_until_reaches [OF this, of "\<lambda>w. length (unfinished w) \<le> k" "work_left w" e]
  show "length (unfinished (worker_catch_up e k w)) \<le> k"
    by (simp add: worker_catch_up_def)
qed

lemma before_store_task_ok:
  assumes "task_ok w"
  shows "task_ok (before_store e i w)"
    and "sent (before_store e i w) = sent w"
    and "error (wt w) \<Longrightarrow> error (wt (before_store e i w))"
    and "error (wt w) \<Longrightarrow> effects (wt (before_store e i w)) = effects (wt w)"
    and "chunk_ok w \<Longrightarrow> chunk_ok (before_store e i w)"
    and "chunk_ok w \<Longrightarrow> \<not> error (wt (before_store e i w)) \<Longrightarrow>
           \<not> error (wt w) \<and> flushed (before_store e i w) = flushed w"
    and "\<exists>j. unfinished (before_store e i w) = drop j (unfinished w)"
    and "length (unfinished (before_store e i w)) \<le> lag e i"
proof -
  from before_store_run [of e i w] obtain n where n: "before_store e i w = worker_run n e w"
    by blast
  note r = worker_run_task_ok [OF assms n]
  show "task_ok (before_store e i w)" "sent (before_store e i w) = sent w"
    "error (wt w) \<Longrightarrow> error (wt (before_store e i w))"
    "error (wt w) \<Longrightarrow> effects (wt (before_store e i w)) = effects (wt w)"
    "chunk_ok w \<Longrightarrow> chunk_ok (before_store e i w)"
    "chunk_ok w \<Longrightarrow> \<not> error (wt (before_store e i w)) \<Longrightarrow>
       \<not> error (wt w) \<and> flushed (before_store e i w) = flushed w"
    "\<exists>j. unfinished (before_store e i w) = drop j (unfinished w)"
    using r by blast+
  let ?c = "worker_catch_up e (lag e i) w"
  from worker_run_unfinished [of "ahead e i" e ?c] obtain j where
    "unfinished (before_store e i w) = drop j (unfinished ?c)"
    by (auto simp: before_store_def)
  with catch_up_task_ok(2) [OF assms, of e "lag e i"]
  show "length (unfinished (before_store e i w)) \<le> lag e i" by simp
qed

lemma room_task_ok:
  assumes "task_ok w"
  shows "task_ok (room e w)"
    and "sent (room e w) = sent w"
    and "error (wt w) \<Longrightarrow> error (wt (room e w))"
    and "error (wt w) \<Longrightarrow> effects (wt (room e w)) = effects (wt w)"
    and "chunk_ok w \<Longrightarrow> chunk_ok (room e w)"
    and "chunk_ok w \<Longrightarrow> \<not> error (wt (room e w)) \<Longrightarrow>
           \<not> error (wt w) \<and> flushed (room e w) = flushed w"
    and "qlen (room e w) < QUEUE_DEPTH"
proof -
  from room_run [of e w] obtain n where n: "room e w = worker_run n e w" by blast
  note r = worker_run_task_ok [OF assms n]
  show "task_ok (room e w)" "sent (room e w) = sent w"
    "error (wt w) \<Longrightarrow> error (wt (room e w))"
    "error (wt w) \<Longrightarrow> effects (wt (room e w)) = effects (wt w)"
    "chunk_ok w \<Longrightarrow> chunk_ok (room e w)"
    "chunk_ok w \<Longrightarrow> \<not> error (wt (room e w)) \<Longrightarrow>
       \<not> error (wt w) \<and> flushed (room e w) = flushed w"
    using r by blast+
  from assms have a: "alive (wt w)" "flush_only (unfinished w)" by (simp_all add: task_ok_def)
  have z: "\<And>w. unfinished w = [] \<Longrightarrow> qlen w < QUEUE_DEPTH"
    by (simp add: unfinished_def qlen_def QUEUE_DEPTH_def)
  from worker_until_reaches [OF a, of "\<lambda>w. qlen w < QUEUE_DEPTH" "work_left w" e] z
  show "qlen (room e w) < QUEUE_DEPTH" by (simp add: room_def)
qed

lemma room_idle: "qlen w < QUEUE_DEPTH \<Longrightarrow> room e w = w"
  by (simp add: room_def worker_until_idle)

lemma xQueueSend_room:
  "xQueueSend e i cmd w =
     (if queue w = None \<or> QUEUE_DEPTH \<le> qlen (room e w) then None
      else if send_ok e i
           then Some (True, (room e w)\<lparr>queue := Some (the_queue (room e w) @ [cmd])\<rparr>)
           else Some (False, room e w))"
  by (simp add: xQueueSend_def room_def Let_def)

lemma xQueueSend_task_ok:
  assumes "task_ok w"
  shows "xQueueSend e i cmd w =
           Some (send_ok e i,
                 if send_ok e i
                 then (room e w)\<lparr>queue := Some (the_queue (room e w) @ [cmd])\<rparr>
                 else room e w)"
proof -
  from assms have "queue w \<noteq> None" by (simp add: task_ok_def)
  with room_task_ok(7) [OF assms, of e] show ?thesis
    by (simp add: xQueueSend_room)
qed

section \<open>push_byte in an open session\<close>

lemma push_byte_fill:
  "used w + 1 \<noteq> BUFF_SIZE \<Longrightarrow> push_byte e i b dst w = Some (0, dst, stage e i b w)"
  by (simp add: push_byte_def stage_def before_store_def Let_def)

lemma push_byte_rotate:
  "used w + 1 = BUFF_SIZE \<Longrightarrow>
     push_byte e i b dst w =
       (case xQueueSend e i (flush_cmd (cur_buff w)) (stage e i b w) of
          None \<Rightarrow> None
        | Some (ok, w1) \<Rightarrow>
            Some (if ok then 0 else 161, True, w1\<lparr>cur_buff := other (cur_buff w), used := 0\<rparr>))"
  by (auto simp: push_byte_def stage_def before_store_def Let_def flush_cmd_def other_def
                 xQueueSend_keeps split: option.splits)

lemma the_queue_upd [simp]:
  "the_queue (w\<lparr>used := u\<rparr>) = the_queue w"
  "the_queue (w\<lparr>cur_buff := p\<rparr>) = the_queue w"
  "the_queue (poke p i b w) = the_queue w"
  "the_queue (w\<lparr>queue := Some q\<rparr>) = q"
  by (simp_all add: the_queue_def)

lemma unfinished_upd [simp]:
  "unfinished (w\<lparr>used := u\<rparr>) = unfinished w"
  "unfinished (w\<lparr>cur_buff := p\<rparr>) = unfinished w"
  "unfinished (poke p i b w) = unfinished w"
  "unfinished (w\<lparr>queue := Some (the_queue w @ q)\<rparr>) = unfinished w @ q"
  by (simp_all add: unfinished_def)

lemma task_ok_upd [simp]:
  "task_ok (w\<lparr>used := u\<rparr>) = task_ok w"
  "task_ok (w\<lparr>cur_buff := p\<rparr>) = task_ok w"
  "task_ok (poke p i b w) = task_ok w"
  by (simp_all add: task_ok_def)

lemma sent_upd [simp]:
  "sent (w\<lparr>used := u\<rparr>) = sent w"
  "sent (w\<lparr>cur_buff := p\<rparr>) = sent w"
  "sent (poke p i b w) = sent w"
  "sent (w\<lparr>queue := Some (the_queue w @ q)\<rparr>) = sent w @ q"
  by (simp_all add: sent_def)

lemma peek_poke:
  "peek p (poke p' i b w) = (if p = p' then (peek p w)[i := b] else peek p w)"
  by (simp add: peek_def poke_def split: plane.splits)

lemma peek_upd [simp]:
  "peek p (w\<lparr>used := u\<rparr>) = peek p w"
  "peek p (w\<lparr>cur_buff := c\<rparr>) = peek p w"
  "peek p (w\<lparr>queue := q\<rparr>) = peek p w"
  by (simp_all add: peek_def split: plane.splits)

lemma chunk_ok_upd [simp]:
  "chunk_ok (w\<lparr>used := u\<rparr>) = chunk_ok w"
  "chunk_ok (w\<lparr>cur_buff := p\<rparr>) = chunk_ok w"
  "chunk_ok (w\<lparr>queue := q\<rparr>) = chunk_ok w"
  by (simp_all add: chunk_ok_def split: option.splits prod.splits)

lemma task_ok_send:
  "task_ok w \<Longrightarrow> op c = OP_FLUSH \<Longrightarrow> task_ok (w\<lparr>queue := Some (the_queue w @ [c])\<rparr>)"
  by (simp add: task_ok_def)

lemma stage_facts:
  "state (stage e i b w) = state w"
  "mutex (stage e i b w) = mutex w"
  "task (stage e i b w) = task w"
  "cur_buff (stage e i b w) = cur_buff w"
  "used (stage e i b w) = used w + 1"
  "length (buff_plane1 (stage e i b w)) = length (buff_plane1 w)"
  "length (buff_plane2 (stage e i b w)) = length (buff_plane2 w)"
  by (simp_all add: stage_def)

lemma stage_task_ok:
  assumes "task_ok w"
  shows "task_ok (stage e i b w)" "sent (stage e i b w) = sent w"
  using before_store_task_ok(1,2) [OF assms] by (simp_all add: stage_def)

lemma stage_stored_byte:
  "used w < length (peek (cur_buff w) w) \<Longrightarrow> peek (cur_buff w) (stage e i b w) ! used w = b"
  by (simp add: stage_def peek_poke)

lemma push_byte_session_fill:
  assumes "session_ok w" "used w + 1 \<noteq> BUFF_SIZE"
  shows "push_byte e i b dst w = Some (0, dst, stage e i b w)"
    and "session_ok (stage e i b w)"
    and "sent (stage e i b w) = sent w"
proof -
  show "push_byte e i b dst w = Some (0, dst, stage e i b w)"
    using assms(2) by (rule push_byte_fill)
  from assms have "task_ok w" by (simp add: session_ok_def)
  from stage_task_ok [OF this] assms
  show "session_ok (stage e i b w)" "sent (stage e i b w) = sent w"
    by (simp_all add: session_ok_def planes_ok_def stage_facts)
qed

lemma push_byte_session_rotate:
  assumes "session_ok w" "used w + 1 = BUFF_SIZE"
  shows "push_byte e i b dst w = Some (if send_ok e i then 0 else 161, True, rotated e i b w)"
    and "session_ok (rotated e i b w)"
    and "sent (rotated e i b w) =
           (if send_ok e i then sent w @ [flush_cmd (cur_buff w)] else sent w)"
    and "cur_buff (rotated e i b w) = other (cur_buff w)"
    and "used (rotated e i b w) = 0"
proof -
  from assms have tk: "task_ok w" by (simp add: session_ok_def)
  have ts: "task_ok (stage e i b w)" by (rule stage_task_ok [OF tk])
  let ?c = "room e (stage e i b w)"
  note cu = room_task_ok [OF ts, of e]
  show "push_byte e i b dst w = Some (if send_ok e i then 0 else 161, True, rotated e i b w)"
    using assms(2) by (simp add: push_byte_rotate xQueueSend_task_ok [OF ts] rotated_def Let_def)
  have "task_ok (?c\<lparr>queue := Some (the_queue ?c @ [flush_cmd (cur_buff w)])\<rparr>)"
    by (rule task_ok_send [OF cu(1)]) (simp add: flush_cmd_def)
  with cu(1) assms
  show "session_ok (rotated e i b w)"
    by (simp add: session_ok_def rotated_def Let_def planes_ok_def stage_facts BUFF_SIZE_def)
  show "sent (rotated e i b w) =
           (if send_ok e i then sent w @ [flush_cmd (cur_buff w)] else sent w)"
    using cu(2) stage_task_ok(2) [OF tk, of e i b]
    by (simp add: rotated_def Let_def)
  show "cur_buff (rotated e i b w) = other (cur_buff w)" "used (rotated e i b w) = 0"
    by (simp_all add: rotated_def Let_def)
qed

section \<open>writer_push in an open session\<close>

lemma writer_start_opens:
  assumes "allocs_ok e" "state w = 0"
  shows "writer_start e (Some path) w =
           (0, w\<lparr>queue := Some [], mutex := True, events := Some False, task := True,
                 wt := task_begin (open_ok e) path, taken := None, state := 1\<rparr>)"
  using assms by (simp add: writer_start_def allocs_ok_def)

lemma session_ok_opened:
  assumes "allocs_ok e" "state w = 0" "planes_ok w"
  shows "session_ok (snd (writer_start e (Some path) w))"
  using assms(3)
  by (simp add: writer_start_opens [OF assms(1,2)] session_ok_def task_ok_def planes_ok_def
        task_begin_def the_queue_def unfinished_def)

lemma session_ok_start:
  assumes "allocs_ok e"
  shows "session_ok (snd (writer_start e (Some path) writer_init))"
  by (rule session_ok_opened [OF assms _ planes_ok_init]) (simp add: writer_init_def)

lemma writer_push_fill:
  assumes "session_ok w" "used w + 1 \<noteq> BUFF_SIZE" "writer_push e b (Some d) w = Some (0, f, w')"
  shows "f = Some False" "w' = stage e 0 b w" "session_ok w'" "sent w' = sent w"
    "cur_buff w' = cur_buff w" "used w' = used w + 1" "peek (cur_buff w) w' ! used w = b"
proof -
  from assms(1) have st: "mutex w" "state w = 1" and pl: "planes_ok w"
    by (simp_all add: session_ok_def)
  from assms(3) have tk: "take_ok e"
    by (simp add: writer_push_session [OF st] split: if_splits)
  from assms(3) show f: "f = Some False" and w': "w' = stage e 0 b w"
    by (simp_all add: writer_push_session [OF st] tk push_byte_session_fill(1) [OF assms(1,2)])
  show "session_ok w'" "sent w' = sent w"
    using push_byte_session_fill(2,3) [OF assms(1,2)] w' by simp_all
  show "cur_buff w' = cur_buff w" "used w' = used w + 1"
    by (simp_all add: w' stage_facts)
  have "used w < length (peek (cur_buff w) w)"
    using pl by (simp add: planes_ok_def peek_def split: plane.splits)
  then show "peek (cur_buff w) w' ! used w = b"
    by (simp add: w' stage_stored_byte)
qed

lemma writer_push_rotate:
  assumes "session_ok w" "used w + 1 = BUFF_SIZE" "writer_push e b (Some d) w = Some (0, f, w')"
  shows "f = Some True" "session_ok w'" "sent w' = sent w @ [flush_cmd (cur_buff w)]"
    "cur_buff w' = other (cur_buff w)" "used w' = 0"
proof -
  from assms(1) have st: "mutex w" "state w = 1" by (simp_all add: session_ok_def)
  from assms(3) have tk: "take_ok e"
    by (simp add: writer_push_session [OF st] split: if_splits)
  note pb = push_byte_session_rotate [OF assms(1,2), of e 0 b]
  from assms(3) have so: "send_ok e 0" and w': "w' = rotated e 0 b w" and f: "f = Some True"
    by (simp_all add: writer_push_session [OF st] tk pb(1) split: if_splits)
  show "f = Some True" by fact
  show "session_ok w'" "sent w' = sent w @ [flush_cmd (cur_buff w)]"
    "cur_buff w' = other (cur_buff w)" "used w' = 0"
    using pb(2-5) so by (simp_all add: w')
qed

lemma pushes_below:
  "session_ok w \<Longrightarrow> used w + length xs < BUFF_SIZE \<Longrightarrow> pushes xs w = Some (ds, w1) \<Longrightarrow>
     ds = replicate (length xs) (Some False) \<and> sent w1 = sent w \<and>
     cur_buff w1 = cur_buff w \<and> used w1 = used w + length xs \<and> session_ok w1"
proof (induction xs arbitrary: w ds)
  case Nil
  then show ?case by simp
next
  case (Cons x xs)
  obtain e b d where x: "x = (e, b, d)" by (cases x)
  from Cons.prems(3) x obtain f w' ds' where
    p: "writer_push e b (Some d) w = Some (0, f, w')"
    and r: "pushes xs w' = Some (ds', w1)" and ds: "ds = f # ds'"
    by (auto split: option.splits if_splits)
  from Cons.prems(2) have ne: "used w + 1 \<noteq> BUFF_SIZE" by simp
  note h = writer_push_fill [OF Cons.prems(1) ne p]
  have "used w' + length xs < BUFF_SIZE" using Cons.prems(2) h(6) by simp
  from Cons.IH [OF h(3) this r] h ds show ?case by simp
qed

text \<open>
  C5. In an open session with an empty active plane, the first \<open>BUFF_SIZE - 1\<close>
  successful \<open>writer_push\<close> calls report the flag false, send no command and keep the
  active plane. The next successful call reports the flag true, sends exactly one
  \<open>OP_FLUSH\<close> command of length \<open>BUFF_SIZE\<close> that refers to the plane just
  filled, and makes the other plane the active one. The call after that stores its byte at
  index 0 of the other plane, sends nothing and reports false.
\<close>

theorem rotation_on_full_buffer:
  assumes "session_ok w" "used w = 0" "length xs = BUFF_SIZE - 1"
    and "pushes xs w = Some (ds, w1)"
    and "writer_push eN bN (Some dN) w1 = Some (0, fN, w2)"
    and "writer_push eM bM (Some dM) w2 = Some (0, fM, w3)"
  shows "ds = replicate (BUFF_SIZE - 1) (Some False) \<and> sent w1 = sent w \<and>
         cur_buff w1 = cur_buff w \<and>
         fN = Some True \<and>
         sent w2 = sent w @ [\<lparr>op = OP_FLUSH, data = cur_buff w, csize = BUFF_SIZE\<rparr>] \<and>
         cur_buff w2 = other (cur_buff w) \<and>
         fM = Some False \<and> sent w3 = sent w2 \<and> cur_buff w3 = other (cur_buff w) \<and>
         used w3 = 1 \<and> peek (other (cur_buff w)) w3 ! 0 = bM"
proof -
  have lt: "used w + length xs < BUFF_SIZE" using assms(2,3) by (simp add: BUFF_SIZE_def)
  note a = pushes_below [OF assms(1) lt assms(4)]
  then have s1: "session_ok w1" and u1: "used w1 + 1 = BUFF_SIZE"
    using assms(2,3) by (simp_all add: BUFF_SIZE_def)
  note b = writer_push_rotate [OF s1 u1 assms(5)]
  have u2: "used w2 + 1 \<noteq> BUFF_SIZE" using b(5) by (simp add: BUFF_SIZE_def)
  note c = writer_push_fill [OF b(2) u2 assms(6)]
  from a b c assms(3) show ?thesis by (simp add: flush_cmd_def)
qed

section \<open>writer_finish in an open session\<close>

lemma closing_step:
  assumes "alive (wt w)" "events w = Some False" "unfinished w = U @ [c]" "flush_only U"
    and "op c = OP_EXIT"
  shows "(alive (wt (worker_step e w)) \<and> events (worker_step e w) = Some False \<and>
          (\<exists>U'. unfinished (worker_step e w) = U' @ [c] \<and> flush_only U') \<and>
          work_left (worker_step e w) < work_left w \<and>
          (error (wt w) \<longrightarrow> effects (wt (worker_step e w)) = effects (wt w))) \<or>
         (\<not> alive (wt (worker_step e w)) \<and> unfinished (worker_step e w) = [] \<and>
          events (worker_step e w) = Some True \<and>
          take 2 (rev (effects (wt (worker_step e w)))) = [SetBits, FileClose] \<and>
          (error (wt w) \<longrightarrow>
             effects (wt (worker_step e w)) = effects (wt w) @ [FileClose, SetBits]))"
proof -
  have ne: "unfinished w \<noteq> []" using assms(3) by simp
  note pr = worker_step_progress [OF assms(1) ne, of e]
  show ?thesis
  proof (cases rule: worker_step_cases [of w e])
    case dead
    with assms(1) show ?thesis by simp
  next
    case idle
    with ne show ?thesis by (simp add: unfinished_def)
  next
    case (take c' q)
    then have "unfinished (worker_step e w) = unfinished w"
      by (simp add: unfinished_def the_queue_def)
    with take assms pr show ?thesis by auto
  next
    case (read c' chunk)
    then have "unfinished (worker_step e w) = unfinished w"
      by (simp add: unfinished_def the_queue_def)
    with read assms pr show ?thesis by auto
  next
    case (turn c' chunk)
    let ?t = "task_iter (io e (length (received (wt w)))) chunk c' (wt w)"
    from turn(2) assms(3) have u: "c' # the_queue w = U @ [c]" by (simp add: unfinished_def)
    have uq: "unfinished (worker_step e w) = the_queue w"
      by (simp add: turn(4) unfinished_def the_queue_def)
    show ?thesis
    proof (cases U)
      case Nil
      with u have c': "c' = c" and q: "the_queue w = []" by simp_all
      have "\<not> alive ?t" using assms(5) c' by (simp add: task_iter_facts)
      moreover have "events (worker_step e w) = Some True"
        using assms(2,5) c' by (simp add: turn(4))
      moreover have "take 2 (rev (effects ?t)) = [SetBits, FileClose]"
        using assms(5) c' by (simp add: task_iter_facts(6))
      moreover have "effects ?t = effects (wt w) @ [FileClose, SetBits]" if "error (wt w)"
        using that assms(5) c' by (simp add: task_iter_facts(5))
      ultimately show ?thesis using uq q by (simp add: turn(4))
    next
      case (Cons u' U')
      with u have c': "c' = u'" and q: "the_queue w = U' @ [c]" by simp_all
      from Cons assms(4) c' have f: "op c' = OP_FLUSH" "flush_only U'" by simp_all
      have "alive ?t" using assms(1) f by (simp add: task_iter_facts)
      moreover have "events (worker_step e w) = Some False"
        using assms(2) f by (simp add: turn(4))
      moreover have "effects ?t = effects (wt w)" if "error (wt w)"
        using that f by (simp add: task_iter_facts(5))
      ultimately show ?thesis using uq q f(2) pr by (auto simp: turn(4))
    qed
  qed
qed

lemma closing_reaches:
  "alive (wt w) \<Longrightarrow> events w = Some False \<Longrightarrow> unfinished w = U @ [c] \<Longrightarrow> flush_only U \<Longrightarrow>
   op c = OP_EXIT \<Longrightarrow> work_left w \<le> n \<Longrightarrow>
     \<not> alive (wt (worker_until (\<lambda>w. \<not> alive (wt w)) n e w)) \<and>
     unfinished (worker_until (\<lambda>w. \<not> alive (wt w)) n e w) = [] \<and>
     events (worker_until (\<lambda>w. \<not> alive (wt w)) n e w) = Some True \<and>
     take 2 (rev (effects (wt (worker_until (\<lambda>w. \<not> alive (wt w)) n e w)))) =
       [SetBits, FileClose] \<and>
     (error (wt w) \<longrightarrow>
        effects (wt (worker_until (\<lambda>w. \<not> alive (wt w)) n e w)) =
          effects (wt w) @ [FileClose, SetBits])"
proof (induction n arbitrary: w U)
  case 0
  then have "unfinished w = []" using work_left_pos [of w] by auto
  with 0 show ?case by simp
next
  case (Suc n)
  let ?P = "\<lambda>w. \<not> alive (wt w)"
  let ?s = "worker_step e w"
  have u: "worker_until ?P (Suc n) e w = worker_until ?P n e ?s"
    using Suc.prems(1) by simp
  from closing_step [OF Suc.prems(1-5), of e] show ?case
  proof
    assume a: "alive (wt ?s) \<and> events ?s = Some False \<and>
          (\<exists>U'. unfinished ?s = U' @ [c] \<and> flush_only U') \<and>
          work_left ?s < work_left w \<and>
          (error (wt w) \<longrightarrow> effects (wt ?s) = effects (wt w))"
    then obtain U' where U': "unfinished ?s = U' @ [c]" "flush_only U'" by blast
    from a Suc.prems(6) have le: "work_left ?s \<le> n" by simp
    have er: "error (wt ?s)" if "error (wt w)"
      using evolves_error(1) [OF worker_step_evolves that] .
    from Suc.IH [OF _ _ U' Suc.prems(5) le] a er show ?thesis
      unfolding u by auto
  next
    assume b: "\<not> alive (wt ?s) \<and> unfinished ?s = [] \<and> events ?s = Some True \<and>
          take 2 (rev (effects (wt ?s))) = [SetBits, FileClose] \<and>
          (error (wt w) \<longrightarrow> effects (wt ?s) = effects (wt w) @ [FileClose, SetBits])"
    then have "worker_until ?P n e ?s = ?s" by (intro worker_until_idle) simp
    with b show ?thesis unfolding u by simp
  qed
qed

lemma writer_finish_session:
  assumes "session_ok w" "take_ok e" "send_ok e 0"
  shows "\<exists>w2. writer_finish e w = Some (0, closed w2) \<and>
             \<not> alive (wt w2) \<and> received (wt w2) = sent w @ [exit_cmd w] \<and>
             take 2 (rev (effects (wt w2))) = [SetBits, FileClose] \<and>
             (error (wt w) \<longrightarrow> error (wt w2) \<and>
                effects (wt w2) = effects (wt w) @ [FileClose, SetBits]) \<and>
             (chunk_ok w \<and> \<not> error (wt w2) \<longrightarrow>
                \<not> error (wt w) \<and>
                stored (wt w2) = flushed w @ take (used w) (peek (cur_buff w) w))"
proof -
  from assms(1) have tk: "task_ok w" and m: "mutex w" by (simp_all add: session_ok_def)
  let ?P = "\<lambda>w. \<not> alive (wt w)"
  let ?c = "room e w"
  let ?w1 = "?c\<lparr>queue := Some (the_queue ?c @ [exit_cmd w])\<rparr>"
  let ?W = "worker_until ?P (work_left ?w1) e ?w1"
  let ?w2 = "?W\<lparr>events := Some False\<rparr>"
  note cu = room_task_ok [OF tk, of e]
  have ex: "op (exit_cmd w) = OP_EXIT" by (simp add: exit_cmd_def)
  from cu(1) have a1: "alive (wt ?w1)" and e1: "events ?w1 = Some False"
    and f1: "flush_only (unfinished ?c)"
    by (simp_all add: task_ok_def)
  have u1: "unfinished ?w1 = unfinished ?c @ [exit_cmd w]" by simp
  note cl = closing_reaches [OF a1 e1 u1 f1 ex order_refl, of e]
  have wait: "xEventGroupWaitBits e ?w1 = Some ?w2"
    using cl by (simp add: xEventGroupWaitBits_def Let_def)
  have fin: "writer_finish e w = Some (0, closed ?w2)"
    using assms(3) wait
    by (simp add: writer_finish_lock [OF m assms(2)] xQueueSend_task_ok [OF tk]
                  exit_cmd_def [symmetric])
  from worker_until_run [of "work_left ?w1" ?P e ?w1] obtain n where
    n: "?W = worker_run n e ?w1" by blast
  have "sent ?W = sent ?w1" by (simp only: n worker_run_sent)
  then have rc: "received (wt ?W) = sent w @ [exit_cmd w]"
    using cl cu(2) by (simp add: sent_def [of ?W]) 
  have ev: "evolves (wt ?w1) (wt ?W)" by (simp only: n worker_run_evolves)
  show ?thesis
  proof (intro exI [of _ ?w2] conjI impI)
    show "writer_finish e w = Some (0, closed ?w2)" by (rule fin)
    show "\<not> alive (wt ?w2)" using cl by simp
    show "received (wt ?w2) = sent w @ [exit_cmd w]" using rc by simp
    show "take 2 (rev (effects (wt ?w2))) = [SetBits, FileClose]" using cl by simp
    show "error (wt ?w2)" if "error (wt w)"
      using evolves_error(1) [OF ev] cu(3) [OF that] by simp
    show "effects (wt ?w2) = effects (wt w) @ [FileClose, SetBits]" if "error (wt w)"
      using cl cu(3,4) [OF that] by simp
    show "\<not> error (wt w)" if h: "chunk_ok w \<and> \<not> error (wt ?w2)"
    proof -
      from h have "\<not> error (wt ?w1)" using evolves_error(1) [OF ev] by auto
      with cu(6) h show ?thesis by simp
    qed
    show "stored (wt ?w2) = flushed w @ take (used w) (peek (cur_buff w) w)"
      if h: "chunk_ok w \<and> \<not> error (wt ?w2)"
    proof -
      from h have c1: "chunk_ok ?w1" using cu(5) by simp
      from h have neW: "\<not> error (wt ?W)" by simp
      from worker_run_data [OF c1, of n e] neW
      have ne1: "\<not> error (wt ?w1)" and fl: "flushed ?W = flushed ?w1"
        by (simp_all add: n)
      from ne1 cu(6) h have fc: "flushed ?c = flushed w" by simp
      have pk: "\<And>q. pending ?w1 q = pending ?c q"
        by (rule pending_cong_peek) simp
      have "flushed ?w1 = flushed ?c @ take (used w) (peek (cur_buff w) w)"
        by (simp add: flushed_def pk) (simp add: exit_cmd_def)
      moreover have "flushed ?W = stored (wt ?W)" using cl by (simp add: flushed_def)
      ultimately show ?thesis using fl fc by simp
    qed
  qed
qed

lemma writer_finish_session_fail:
  assumes "session_ok w" "\<not> (take_ok e \<and> send_ok e 0)"
  shows "\<exists>r w'. writer_finish e w = Some (r, w') \<and> r \<noteq> 0"
proof -
  from assms(1) have tk: "task_ok w" and m: "mutex w" by (simp_all add: session_ok_def)
  show ?thesis
  proof (cases "take_ok e")
    case False
    then show ?thesis using assms(1) m by (simp add: writer_finish_no_lock session_ok_def)
  next
    case True
    from True assms(2) show ?thesis
      by (simp add: writer_finish_lock [OF m True] xQueueSend_task_ok [OF tk])
  qed
qed

text \<open>
  C6. A successful \<open>writer_finish\<close> on an open session whose active plane holds
  \<open>used w\<close> bytes sends one \<open>OP_EXIT\<close> command with that length and that plane.
  It is the last command the task receives, after all the \<open>OP_FLUSH\<close> commands of the
  session. Afterwards the task is gone, the handles are \<open>NULL\<close>, the active plane is
  the first one, the fill length is 0 and the state is 0.
\<close>

theorem finish_flushes_rest_and_resets:
  assumes "session_ok w" "writer_finish e w = Some (0, w')"
  shows "received (wt w') = sent w @ [\<lparr>op = OP_EXIT, data = cur_buff w, csize = used w\<rparr>] \<and>
         flush_only (sent w) \<and> used w < BUFF_SIZE \<and>
         \<not> alive (wt w') \<and> queue w' = None \<and> \<not> mutex w' \<and> events w' = None \<and> \<not> task w' \<and>
         cur_buff w' = Plane1 \<and> used w' = 0 \<and> state w' = 0"
proof -
  have ok: "take_ok e \<and> send_ok e 0"
    using writer_finish_session_fail [OF assms(1), of e] assms(2) by auto
  from writer_finish_session [OF assms(1), of e] ok assms(2) obtain w2 where
    "w' = closed w2" "\<not> alive (wt w2)" "received (wt w2) = sent w @ [exit_cmd w]"
    by auto
  moreover have "flush_only (sent w)" "used w < BUFF_SIZE"
    using assms(1) by (simp_all add: session_ok_def task_ok_def sent_def planes_ok_def)
  ultimately show ?thesis
    by (simp add: closed_def exit_cmd_def)
qed

section \<open>The task after an I/O error\<close>

lemma worker_until_evolves: "evolves (wt w) (wt (worker_until P n e w))"
  using worker_until_run [of n P e w] worker_run_evolves [of w _ e] by auto

lemma before_store_evolves: "evolves (wt w) (wt (before_store e i w))"
  using before_store_run [of e i w] worker_run_evolves [of w _ e] by auto

lemma room_evolves: "evolves (wt w) (wt (room e w))"
  by (simp add: room_def worker_until_evolves)

lemma stage_evolves: "evolves (wt w) (wt (stage e i b w))"
  by (simp add: stage_def before_store_evolves)

lemma xQueueSend_evolves:
  "xQueueSend e i cmd w = Some (ok, w') \<Longrightarrow> evolves (wt w) (wt w')"
  using room_evolves [of w e]
  by (auto simp: xQueueSend_room split: if_splits)

lemma xEventGroupWaitBits_evolves:
  "xEventGroupWaitBits e w = Some w' \<Longrightarrow> evolves (wt w) (wt w')"
  using worker_until_evolves [of w "\<lambda>w. \<not> alive (wt w)" "work_left w" e]
  by (auto simp: xEventGroupWaitBits_def Let_def split: if_splits)

lemma push_byte_evolves:
  assumes "push_byte e i b d w = Some (r, d', w')"
  shows "evolves (wt w) (wt w')"
proof (cases "used w + 1 = BUFF_SIZE")
  case False
  with assms have "w' = stage e i b w" by (simp add: push_byte_fill)
  then show ?thesis by (simp add: stage_evolves)
next
  case True
  with assms obtain ok w1 where
    s: "xQueueSend e i (flush_cmd (cur_buff w)) (stage e i b w) = Some (ok, w1)"
    and w': "w' = w1\<lparr>cur_buff := other (cur_buff w), used := 0\<rparr>"
    by (auto simp: push_byte_rotate split: option.splits)
  from evolves_trans [OF stage_evolves xQueueSend_evolves [OF s]] w' show ?thesis by simp
qed

lemma puts_loop_evolves:
  "puts_loop e i s wr w = Some (r, wr', w') \<Longrightarrow> evolves (wt w) (wt w')"
proof (induction s arbitrary: i wr w)
  case Nil
  then show ?case by simp
next
  case (Cons c s)
  show ?case
  proof (cases "c = 0")
    case True
    with Cons.prems show ?thesis by simp
  next
    case False
    with Cons.prems obtain err wr1 w1 where
      pb: "push_byte e i c wr w = Some (err, wr1, w1)"
      by (auto split: option.splits)
    note ev = push_byte_evolves [OF pb]
    show ?thesis
    proof (cases "err = 0")
      case True
      with False pb Cons.prems have "puts_loop e (i + 1) s wr1 w1 = Some (r, wr', w')"
        by simp
      from evolves_trans [OF ev Cons.IH [OF this]] show ?thesis .
    next
      case False
      with \<open>c \<noteq> 0\<close> pb Cons.prems ev show ?thesis by simp
    qed
  qed
qed

lemma write_returns:
  "writer_push e b dst w = Some x \<Longrightarrow> mutex w"
  "writer_puts e s dst w = Some y \<Longrightarrow> mutex w"
  "writer_finish e w = Some z \<Longrightarrow> mutex w"
  using write_null_mutex(1) [of w e b dst] write_null_mutex(2) [of w e s dst]
    write_null_mutex(3) [of w e]
  by auto

lemma writer_push_evolves:
  assumes "writer_push e b dst w = Some (r, dst', w')"
  shows "evolves (wt w) (wt w')"
proof -
  note m = write_returns(1) [OF assms]
  show ?thesis
  proof (cases "take_ok e \<and> state w = 1")
    case False
    with assms have "w' = w"
      using write_closed(1) [OF m, of e b dst] write_no_lock(1) [OF m, of e b dst] by auto
    then show ?thesis by simp
  next
    case True
    with assms obtain err wr where "push_byte e 0 b False w = Some (err, wr, w')"
      by (auto simp: writer_push_session [OF m] split: option.splits)
    then show ?thesis by (rule push_byte_evolves)
  qed
qed

lemma writer_puts_evolves:
  assumes "writer_puts e s dst w = Some (r, dst', w')"
  shows "evolves (wt w) (wt w')"
proof -
  note m = write_returns(2) [OF assms]
  show ?thesis
  proof (cases "take_ok e \<and> state w = 1")
    case False
    with assms have "w' = w"
      using write_closed(2) [OF m, of e s dst] write_no_lock(2) [OF m, of e s dst] by auto
    then show ?thesis by simp
  next
    case True
    with assms obtain r1 wr where "puts_loop e 0 s False w = Some (r1, wr, w')"
      by (auto simp: writer_puts_session [OF m] split: option.splits)
    then show ?thesis by (rule puts_loop_evolves)
  qed
qed

lemma writer_finish_evolves:
  assumes "writer_finish e w = Some (r, w')"
  shows "evolves (wt w) (wt w')"
proof -
  note m = write_returns(3) [OF assms]
  show ?thesis
  proof (cases "take_ok e")
    case False
    with assms m show ?thesis by (simp add: writer_finish_no_lock)
  next
    case True
    from assms obtain ok w1 where
      s: "xQueueSend e 0 \<lparr>op = OP_EXIT, data = cur_buff w, csize = used w\<rparr> w = Some (ok, w1)"
      by (auto simp: writer_finish_lock [OF m True] split: option.splits)
    note e1 = xQueueSend_evolves [OF s]
    show ?thesis
    proof (cases ok)
      case False
      with assms s e1 show ?thesis by (simp add: writer_finish_lock [OF m True])
    next
      case True
      with assms s obtain w2 where
        w2: "xEventGroupWaitBits e w1 = Some w2" "w' = closed w2"
        by (auto simp: writer_finish_lock [OF m \<open>take_ok e\<close>] split: option.splits)
      from evolves_trans [OF e1 xEventGroupWaitBits_evolves [OF w2(1)]] w2(2)
      show ?thesis by (simp add: closed_def)
    qed
  qed
qed

text \<open>
  C7. Whatever commands the task receives: once its error flag is set, it stays set and no
  further write or sync is issued, while every command up to and including \<open>OP_EXIT\<close>
  is still received. On \<open>OP_EXIT\<close> the task closes the file, sets
  \<open>TASK_COMPLETE\<close> and ends. The flag is set by a failed open, by a short write and by
  a failed sync. Inside the module, all the task does during \<open>writer_push\<close> and
  \<open>writer_puts\<close> is such a run of its command loop, so after an error these calls
  add no write or sync either. And \<open>writer_finish\<close> on an open session whose task has
  met an error returns 0; all the task has added by then is the close and the completion
  signal.
\<close>

theorem worker_drains_after_io_error:
  assumes "alive t" "error (task_run xs t)"
  shows "error (task_run (xs @ ys) t) \<and>
         filter is_phys (effects (task_run (xs @ ys) t)) =
           filter is_phys (effects (task_run xs t)) \<and>
         received (task_run (xs @ ys) t) = received t @ until_exit (map (snd \<circ> snd) (xs @ ys)) \<and>
         (OP_EXIT \<in> set (map (op \<circ> snd \<circ> snd) (xs @ ys)) \<longrightarrow>
            \<not> alive (task_run (xs @ ys) t) \<and>
            take 2 (rev (effects (task_run (xs @ ys) t))) = [SetBits, FileClose]) \<and>
         error (task_begin False path) \<and>
         (\<not> error t' \<and> 0 < csize c \<and> (fst r (csize c) \<noteq> csize c \<or> \<not> snd r) \<longrightarrow>
            error (task_iter r mem c t')) \<and>
         (error (wt w) \<and>
          (writer_push e b dst w = Some (ret, dst', w') \<or>
           writer_puts e s dst w = Some (ret, dst', w')) \<longrightarrow>
            (\<exists>zs. wt w' = task_run zs (wt w)) \<and> error (wt w') \<and>
            filter is_phys (effects (wt w')) = filter is_phys (effects (wt w))) \<and>
         (session_ok w \<and> error (wt w) \<and> take_ok e \<and> send_ok e 0 \<longrightarrow>
            (\<exists>w''. writer_finish e w = Some (0, w'') \<and> state w'' = 0 \<and> \<not> alive (wt w'') \<and>
                  received (wt w'') =
                    sent w @ [\<lparr>op = OP_EXIT, data = cur_buff w, csize = used w\<rparr>] \<and>
                  effects (wt w'') = effects (wt w) @ [FileClose, SetBits]))"
proof (intro conjI impI)
  show "error (task_run (xs @ ys) t)"
    using task_run_error [OF assms(2), of ys] by (simp add: task_run_append)
  show "filter is_phys (effects (task_run (xs @ ys) t)) = filter is_phys (effects (task_run xs t))"
    using task_run_error [OF assms(2), of ys] by (simp add: task_run_append)
  show "received (task_run (xs @ ys) t) = received t @ until_exit (map (snd \<circ> snd) (xs @ ys))"
    using task_run_received [OF assms(1), of "xs @ ys"] by simp
  show "\<not> alive (task_run (xs @ ys) t)"
    if "OP_EXIT \<in> set (map (op \<circ> snd \<circ> snd) (xs @ ys))"
    using that task_run_received [OF assms(1), of "xs @ ys"] by simp
  show "take 2 (rev (effects (task_run (xs @ ys) t))) = [SetBits, FileClose]"
    if "OP_EXIT \<in> set (map (op \<circ> snd \<circ> snd) (xs @ ys))"
    using that task_run_received [OF assms(1), of "xs @ ys"] by simp
  show "error (task_begin False path)" by (simp add: task_begin_def)
  show "error (task_iter r mem c t')"
    if "\<not> error t' \<and> 0 < csize c \<and> (fst r (csize c) \<noteq> csize c \<or> \<not> snd r)"
    using that task_iter_failure by blast
  have ev: "evolves (wt w) (wt w')"
    if "error (wt w) \<and>
        (writer_push e b dst w = Some (ret, dst', w') \<or>
         writer_puts e s dst w = Some (ret, dst', w'))"
    using that writer_push_evolves writer_puts_evolves by blast
  show "\<exists>zs. wt w' = task_run zs (wt w)"
    if "error (wt w) \<and>
        (writer_push e b dst w = Some (ret, dst', w') \<or>
         writer_puts e s dst w = Some (ret, dst', w'))"
    using ev [OF that] by (simp add: evolves_def)
  show "error (wt w')"
    if "error (wt w) \<and>
        (writer_push e b dst w = Some (ret, dst', w') \<or>
         writer_puts e s dst w = Some (ret, dst', w'))"
    using evolves_error(1) [OF ev [OF that]] that by simp
  show "filter is_phys (effects (wt w')) = filter is_phys (effects (wt w))"
    if "error (wt w) \<and>
        (writer_push e b dst w = Some (ret, dst', w') \<or>
         writer_puts e s dst w = Some (ret, dst', w'))"
    using evolves_error(2) [OF ev [OF that]] that by simp
  show "\<exists>w''. writer_finish e w = Some (0, w'') \<and> state w'' = 0 \<and> \<not> alive (wt w'') \<and>
              received (wt w'') = sent w @ [\<lparr>op = OP_EXIT, data = cur_buff w, csize = used w\<rparr>] \<and>
              effects (wt w'') = effects (wt w) @ [FileClose, SetBits]"
    if h: "session_ok w \<and> error (wt w) \<and> take_ok e \<and> send_ok e 0"
  proof -
    from h writer_finish_session [of w e] obtain w2 where
      "writer_finish e w = Some (0, closed w2)"
      "\<not> alive (wt w2)" "received (wt w2) = sent w @ [exit_cmd w]"
      "effects (wt w2) = effects (wt w) @ [FileClose, SetBits]"
      by auto
    then show ?thesis by (simp add: closed_def exit_cmd_def)
  qed
qed

section \<open>writer_start and writer_finish outside their phase\<close>

lemma session1_eq:
  "session1 = writer_init\<lparr>queue := Some [], mutex := True, events := Some False, task := True,
                 wt := task_begin True ''/output-001.csv'', taken := None, state := 1\<rparr>"
  by (simp add: session1_def writer_start_opens allocs_ok_def env_ok_def writer_init_def)

text \<open>
  C2 does not hold. \<open>writer_start\<close> ends with \<open>return 0\<close>, so it returns 0 for a
  session that is already open as well as for a failed allocation. Called on an open
  session, its clean-up deletes the queue, the mutex, the event group and the task of that
  session, while \<open>state\<close> stays 1.
\<close>

theorem writer_start_while_open_returns_zero:
  "fst (writer_start env_ok (Some ''/output-002.csv'') session1) = 0 \<and>
   state (snd (writer_start env_ok (Some ''/output-002.csv'') session1)) = 1 \<and>
   queue (snd (writer_start env_ok (Some ''/output-002.csv'') session1)) = None \<and>
   \<not> mutex (snd (writer_start env_ok (Some ''/output-002.csv'') session1)) \<and>
   events (snd (writer_start env_ok (Some ''/output-002.csv'') session1)) = None \<and>
   \<not> alive (wt (snd (writer_start env_ok (Some ''/output-002.csv'') session1))) \<and>
   fst (writer_start (env_ok\<lparr>alloc_mutex := False\<rparr>) (Some ''/output-001.csv'') writer_init) = 0"
  by (simp add: session1_eq writer_start_def writer_init_def)

lemma session1_ok: "session_ok session1"
  unfolding session1_def by (rule session_ok_start) (simp add: allocs_ok_def env_ok_def)

lemma finished1_state:
  "state finished1 = 0" "\<not> mutex finished1" "queue finished1 = None" "events finished1 = None"
proof -
  have "take_ok env_ok" "send_ok env_ok 0" by (simp_all add: env_ok_def)
  from writer_finish_session [OF session1_ok this] obtain w2 where
    "writer_finish env_ok session1 = Some (0, closed w2)" by blast
  then have f: "finished1 = closed w2" by (simp add: finished1_def)
  show "state finished1 = 0" "\<not> mutex finished1" "queue finished1 = None"
    "events finished1 = None"
    unfolding f by (simp_all add: closed_def)
qed

text \<open>
  C3 does not hold. The first \<open>writer_finish\<close> of a session returns 0; after it the
  state is 0 and the mutex handle is \<open>NULL\<close>. A second \<open>writer_finish\<close> takes the
  mutex before anything else, on the \<open>NULL\<close> handle, and does not return, in any
  environment: it returns no error code. The state check would not reject the call either:
  it sits under \<open>if (ret)\<close> and is skipped whenever the mutex has been taken (in
  \<open>writer_finish_lock\<close> above the state does not occur).
\<close>

theorem second_finish_does_not_return:
  "writer_finish env_ok session1 \<noteq> None \<and> fst (the (writer_finish env_ok session1)) = 0 \<and>
   state finished1 = 0 \<and> \<not> mutex finished1 \<and>
   writer_finish e finished1 = None \<and>
   writer_finish env_ok finished1 = None \<and>
   writer_finish (env_ok\<lparr>send_ok := \<lambda>_. False\<rparr>) finished1 = None \<and>
   writer_finish (env_ok\<lparr>take_ok := False\<rparr>) finished1 = None"
proof -
  have "take_ok env_ok" "send_ok env_ok 0" by (simp_all add: env_ok_def)
  from writer_finish_session [OF session1_ok this] obtain w2 where
    "writer_finish env_ok session1 = Some (0, closed w2)" by blast
  then show ?thesis
    using finished1_state(1,2) by (simp add: write_null_mutex(3))
qed

section \<open>Concrete sessions\<close>

lemma writer_push_fill_eq:
  assumes "session_ok w" "used w + 1 \<noteq> BUFF_SIZE" "take_ok e"
  shows "writer_push e b (Some d) w = Some (0, Some False, stage e 0 b w)"
  using assms
  by (simp add: writer_push_session session_ok_def push_byte_fill)

lemma writer_push_rotate_eq:
  assumes "session_ok w" "used w + 1 = BUFF_SIZE" "take_ok e" "send_ok e 0"
  shows "writer_push e b (Some d) w = Some (0, Some True, rotated e 0 b w)"
proof -
  from assms(1) have "mutex w" "state w = 1" by (simp_all add: session_ok_def)
  then show ?thesis
    using assms(3,4) by (simp add: writer_push_session push_byte_session_rotate(1) [OF assms(1,2)])
qed

lemma pushes_exists:
  "session_ok w \<Longrightarrow> used w + length xs < BUFF_SIZE \<Longrightarrow> \<forall>x \<in> set xs. take_ok (fst x) \<Longrightarrow>
     \<exists>ds w1. pushes xs w = Some (ds, w1)"
proof (induction xs arbitrary: w)
  case Nil
  then show ?case by simp
next
  case (Cons x xs)
  obtain e b d where x: "x = (e, b, d)" by (cases x)
  from Cons.prems have ne: "used w + 1 \<noteq> BUFF_SIZE" and tk: "take_ok e" using x by simp_all
  note eq = writer_push_fill_eq [OF Cons.prems(1) ne tk, of b d]
  note h = writer_push_fill [OF Cons.prems(1) ne eq]
  have "used (stage e 0 b w) + length xs < BUFF_SIZE" using Cons.prems(2) h(6) by simp
  from Cons.IH [OF h(3) this] Cons.prems(3) obtain ds w1 where
    "pushes xs (stage e 0 b w) = Some (ds, w1)" by auto
  then show ?case using x eq by simp
qed

theorem rotation_on_full_buffer_witness:
  "\<exists>ds w1 fN w2 fM w3.
     session_ok session1 \<and> used session1 = 0 \<and>
     length (replicate (BUFF_SIZE - 1) (env_ok, 65 :: byte, False)) = BUFF_SIZE - 1 \<and>
     pushes (replicate (BUFF_SIZE - 1) (env_ok, 65, False)) session1 = Some (ds, w1) \<and>
     writer_push env_ok 66 (Some False) w1 = Some (0, fN, w2) \<and>
     writer_push env_ok 67 (Some False) w2 = Some (0, fM, w3) \<and>
     fN = Some True \<and>
     sent w2 = [\<lparr>op = OP_FLUSH, data = Plane1, csize = BUFF_SIZE\<rparr>] \<and>
     cur_buff w2 = Plane2 \<and> fM = Some False \<and> used w3 = 1 \<and> peek Plane2 w3 ! 0 = 67"
proof -
  let ?xs = "replicate (BUFF_SIZE - 1) (env_ok, 65 :: byte, False)"
  have tk: "take_ok env_ok" "send_ok env_ok 0" by (simp_all add: env_ok_def)
  have u0: "used session1 = 0" and c0: "cur_buff session1 = Plane1"
    and s0: "sent session1 = []"
    by (simp_all add: session1_eq writer_init_def sent_def unfinished_def the_queue_def task_begin_def)
  have len: "length ?xs = BUFF_SIZE - 1" by simp
  have lt: "used session1 + length ?xs < BUFF_SIZE" by (simp add: u0 BUFF_SIZE_def)
  from pushes_exists [OF session1_ok lt] tk obtain ds w1 where
    p: "pushes ?xs session1 = Some (ds, w1)" by auto
  note a = pushes_below [OF session1_ok lt p]
  then have s1: "session_ok w1" and u1: "used w1 + 1 = BUFF_SIZE"
    by (simp_all add: u0 BUFF_SIZE_def)
  note pN = writer_push_rotate_eq [OF s1 u1 tk, of 66 False]
  note b = writer_push_rotate [OF s1 u1 pN]
  have u2: "used (rotated env_ok 0 66 w1) + 1 \<noteq> BUFF_SIZE" using b(5) by (simp add: BUFF_SIZE_def)
  note pM = writer_push_fill_eq [OF b(2) u2 tk(1), of 67 False]
  from rotation_on_full_buffer [OF session1_ok u0 len p pN pM] p pN pM session1_ok u0
  show ?thesis by (simp add: c0 s0 other_def)
qed

lemma session1b_ok: "session_ok session1b \<and> used session1b = 1 \<and> cur_buff session1b = Plane1 \<and> sent session1b = []"
proof -
  have ne: "used session1 + 1 \<noteq> BUFF_SIZE"
    by (simp add: session1_eq writer_init_def BUFF_SIZE_def)
  from push_byte_session_fill(2,3) [OF session1_ok ne, of env_ok 0 65]
  show ?thesis
    by (simp add: session1b_def stage_facts)
       (simp add: session1_eq writer_init_def sent_def unfinished_def the_queue_def task_begin_def)
qed

theorem finish_flushes_rest_and_resets_witness:
  "\<exists>w'. session_ok session1b \<and> writer_finish env_ok session1b = Some (0, w') \<and>
     received (wt w') = [\<lparr>op = OP_EXIT, data = Plane1, csize = 1\<rparr>] \<and>
     queue w' = None \<and> cur_buff w' = Plane1 \<and> used w' = 0 \<and> state w' = 0"
proof -
  have tk: "take_ok env_ok" "send_ok env_ok 0" by (simp_all add: env_ok_def)
  from session1b_ok have ok: "session_ok session1b" by simp
  from writer_finish_session [OF ok tk] obtain w' where
    f: "writer_finish env_ok session1b = Some (0, w')" by blast
  from finish_flushes_rest_and_resets [OF ok f] f ok session1b_ok
  show ?thesis by simp
qed

lemma session_bad_ok:
  "session_ok session_bad \<and> error (wt session_bad) \<and>
   effects (wt session_bad) = [FileOpen ''/output-001.csv''] \<and> sent session_bad = [] \<and>
   cur_buff session_bad = Plane1 \<and> used session_bad = 0"
proof -
  have a: "allocs_ok (env_ok\<lparr>open_ok := False\<rparr>)" by (simp add: allocs_ok_def env_ok_def)
  have z: "state writer_init = 0" by (simp add: writer_init_def)
  have ok: "session_ok session_bad"
    unfolding session_bad_def by (rule session_ok_start [OF a])
  have eq: "session_bad =
              writer_init\<lparr>queue := Some [], mutex := True, events := Some False, task := True,
                 wt := task_begin False ''/output-001.csv'', taken := None, state := 1\<rparr>"
    by (simp add: session_bad_def writer_start_opens [OF a z])
  have "error (wt session_bad)" "effects (wt session_bad) = [FileOpen ''/output-001.csv'']"
    "sent session_bad = []" "cur_buff session_bad = Plane1" "used session_bad = 0"
    by (simp_all add: eq task_begin_def sent_def unfinished_def the_queue_def writer_init_def)
  with ok show ?thesis by simp
qed

theorem worker_drains_after_io_error_witness:
  "alive (task_begin False ''/output-001.csv'') \<and>
   error (task_run [] (task_begin False ''/output-001.csv'')) \<and>
   received (task_run
               [((\<lambda>n. n, True), [65, 66, 67, 68], \<lparr>op = OP_FLUSH, data = Plane1, csize = 4\<rparr>),
                ((\<lambda>n. n, True), [69, 66, 67, 68], \<lparr>op = OP_EXIT, data = Plane1, csize = 1\<rparr>)]
               (task_begin False ''/output-001.csv'')) =
     [\<lparr>op = OP_FLUSH, data = Plane1, csize = 4\<rparr>, \<lparr>op = OP_EXIT, data = Plane1, csize = 1\<rparr>] \<and>
   filter is_phys (effects (task_run
               [((\<lambda>n. n, True), [65, 66, 67, 68], \<lparr>op = OP_FLUSH, data = Plane1, csize = 4\<rparr>),
                ((\<lambda>n. n, True), [69, 66, 67, 68], \<lparr>op = OP_EXIT, data = Plane1, csize = 1\<rparr>)]
               (task_begin False ''/output-001.csv''))) = [] \<and>
   \<not> error (task_begin True ''/output-001.csv'') \<and>
   error (task_iter (\<lambda>n. n, False) [65, 66, 67, 68] \<lparr>op = OP_FLUSH, data = Plane1, csize = 4\<rparr>
            (task_begin True ''/output-001.csv'')) \<and>
   error (wt session_bad) \<and>
   writer_push env_ok 65 None session_bad = Some (0, None, stage env_ok 0 65 session_bad) \<and>
   error (wt (stage env_ok 0 65 session_bad)) \<and>
   filter is_phys (effects (wt (stage env_ok 0 65 session_bad))) = [] \<and>
   session_ok session_bad \<and> take_ok env_ok \<and> send_ok env_ok 0 \<and>
   (\<exists>w'. writer_finish env_ok session_bad = Some (0, w') \<and>
         effects (wt w') = [FileOpen ''/output-001.csv'', FileClose, SetBits])"
proof -
  have a: "alive (task_begin False ''/output-001.csv'')"
    and e: "error (task_run [] (task_begin False ''/output-001.csv''))"
    by (simp_all add: task_begin_def)
  have tk: "take_ok env_ok" "send_ok env_ok 0" by (simp_all add: env_ok_def)
  have ne: "used session_bad + 1 \<noteq> BUFF_SIZE"
    using session_bad_ok by (simp add: BUFF_SIZE_def)
  have st: "mutex session_bad" "state session_bad = 1"
    using session_bad_ok by (simp_all add: session_ok_def)
  have p: "writer_push env_ok 65 None session_bad = Some (0, None, stage env_ok 0 65 session_bad)"
    by (simp add: writer_push_session [OF st] tk push_byte_fill [OF ne])
  from worker_drains_after_io_error [OF a e,
      of "[((\<lambda>n. n, True), [65, 66, 67, 68], \<lparr>op = OP_FLUSH, data = Plane1, csize = 4\<rparr>),
           ((\<lambda>n. n, True), [69, 66, 67, 68], \<lparr>op = OP_EXIT, data = Plane1, csize = 1\<rparr>)]"
         "''/output-001.csv''" "task_begin True ''/output-001.csv''"
         "\<lparr>op = OP_FLUSH, data = Plane1, csize = 4\<rparr>" "(\<lambda>n. n, False)" "[65, 66, 67, 68]"
         session_bad env_ok 65 None 0 None "stage env_ok 0 65 session_bad"]
    a e tk p session_bad_ok
  show ?thesis
    by (simp add: task_begin_def is_phys_def task_iter_def Let_def, blast)
qed

section \<open>The bytes of a session\<close>

lemma other_other [simp]: "other (other p) = p" "other p \<noteq> p" "p \<noteq> other p"
  by (cases p; simp add: other_def)+

lemma pending_poke:
  "\<forall>c \<in> set q. data c \<noteq> p \<Longrightarrow> pending ((poke p k b w)\<lparr>used := u\<rparr>) q = pending w q"
  by (induction q) (simp_all add: peek_poke)

lemma chunk_ok_poke:
  "chunk_ok w \<Longrightarrow> \<forall>c \<in> set (unfinished w). data c \<noteq> p \<Longrightarrow>
     chunk_ok ((poke p k b w)\<lparr>used := u\<rparr>)"
  by (auto simp: chunk_ok_def unfinished_def peek_poke split: option.splits)

lemma take_Suc_update: "n < length xs \<Longrightarrow> take (Suc n) (xs[n := b]) = take n xs @ [b]"
  by (simp add: take_Suc_conv_app_nth)

lemma shape_suffix:
  assumes "shape w" "U = drop j (unfinished w)" "length U \<le> 1"
  shows "U = [] \<or> (\<exists>c. U = [c] \<and> data c = other (cur_buff w))"
proof (cases "unfinished w")
  case Nil
  with assms(2) show ?thesis by simp
next
  case (Cons c q)
  note c = Cons
  show ?thesis
  proof (cases q)
    case Nil
    with c assms(1) have d: "data c = other (cur_buff w)" by (simp add: shape_def)
    from c Nil assms(2) have "U = [c] \<or> U = []" by (cases j) simp_all
    with d show ?thesis by auto
  next
    case (Cons c' q')
    with c assms(1) have q': "q' = []" and d: "data c' = other (cur_buff w)"
      by (simp_all add: shape_def split: list.splits)
    from c Cons q' assms(2,3) have "U = [c'] \<or> U = []"
      by (cases j; cases "j - 1") auto
    with d show ?thesis by auto
  qed
qed

lemma stage_inv:
  assumes "inv bs w" "lag e i \<le> 1"
  shows "unfinished (stage e i b w) = [] \<or>
         (\<exists>c. unfinished (stage e i b w) = [c] \<and> data c = other (cur_buff w))"
    and "chunk_ok (stage e i b w)"
    and "\<not> error (wt (stage e i b w)) \<Longrightarrow> content (stage e i b w) = bs @ [b]"
proof -
  let ?a = "before_store e i w"
  from assms(1) have so: "session_ok w" and sh: "shape w" and ck: "chunk_ok w"
    and ct: "\<not> error (wt w) \<longrightarrow> content w = bs"
    by (simp_all add: inv_def)
  from so have tk: "task_ok w" and pl: "planes_ok w" by (simp_all add: session_ok_def)
  note cu = before_store_task_ok [OF tk, of e i]
  from cu(7) obtain j where j: "unfinished ?a = drop j (unfinished w)" by blast
  from cu(8) assms(2) have le: "length (unfinished ?a) \<le> 1" by simp
  have qa: "unfinished ?a = [] \<or> (\<exists>c. unfinished ?a = [c] \<and> data c = other (cur_buff w))"
    by (rule shape_suffix [OF sh j le])
  have qs: "unfinished (stage e i b w) = unfinished ?a" by (simp add: stage_def)
  show "unfinished (stage e i b w) = [] \<or>
        (\<exists>c. unfinished (stage e i b w) = [c] \<and> data c = other (cur_buff w))"
    using qa qs by simp
  from qa have safe: "\<forall>c \<in> set (unfinished ?a). data c \<noteq> cur_buff w" by auto
  show "chunk_ok (stage e i b w)"
    unfolding stage_def using chunk_ok_poke [OF cu(5) [OF ck] safe] by simp
  show "content (stage e i b w) = bs @ [b]" if ne: "\<not> error (wt (stage e i b w))"
  proof -
    from ne have nea: "\<not> error (wt ?a)" by (simp add: stage_def)
    with cu(6) [OF ck] have new: "\<not> error (wt w)" and fl: "flushed ?a = flushed w" by simp_all
    have pe: "pending (stage e i b w) (unfinished ?a) = pending ?a (unfinished ?a)"
      unfolding stage_def using pending_poke [OF safe] by simp
    have f1: "flushed (stage e i b w) = flushed w"
      using fl pe qs by (simp add: flushed_def) (simp add: stage_def)
    have lt: "used w < length (peek (cur_buff w) w)"
      using pl by (simp add: planes_ok_def peek_def split: plane.splits)
    have "take (used w + 1) (peek (cur_buff w) (stage e i b w)) =
            take (used w) (peek (cur_buff w) w) @ [b]"
      using lt by (simp add: stage_def peek_poke take_Suc_update)
    with f1 ct new show ?thesis
      by (simp add: content_def stage_facts)
  qed
qed

lemma qlen_unfinished: "qlen w \<le> length (unfinished w)"
  by (simp add: qlen_def unfinished_def)

lemma push_byte_inv:
  assumes "inv bs w" "lag e i \<le> 1" "push_byte e i b d w = Some (0, d', w')"
  shows "inv (bs @ [b]) w'"
proof (cases "used w + 1 = BUFF_SIZE")
  case False
  from assms(1) have so: "session_ok w" by (simp add: inv_def)
  note pb = push_byte_session_fill [OF so False, of e i b]
  from assms(3) pb(1) have w': "w' = stage e i b w" by simp
  note st = stage_inv [OF assms(1,2), of b]
  have "shape (stage e i b w)"
    using st(1) by (auto simp: shape_def stage_facts)
  with pb(2) st(2,3) show ?thesis by (simp add: inv_def w')
next
  case True
  from assms(1) have so: "session_ok w" by (simp add: inv_def)
  note pb = push_byte_session_rotate [OF so True, of e i b]
  from assms(3) pb(1) have snd: "send_ok e i" and w': "w' = rotated e i b w"
    by (simp_all split: if_splits)
  note st = stage_inv [OF assms(1,2), of b]
  let ?s = "stage e i b w"
  from st(1) have "length (unfinished ?s) \<le> 1" by auto
  with qlen_unfinished [of ?s] have len: "qlen ?s < QUEUE_DEPTH"
    by (simp add: QUEUE_DEPTH_def)
  have idle: "room e ?s = ?s" by (rule room_idle [OF len])
  have rot: "rotated e i b w =
               ?s\<lparr>queue := Some (the_queue ?s @ [flush_cmd (cur_buff w)]),
                  cur_buff := other (cur_buff w), used := 0\<rparr>"
    unfolding rotated_def idle Let_def using snd by simp
  have un: "unfinished (rotated e i b w) = unfinished ?s @ [flush_cmd (cur_buff w)]"
    by (simp add: rot)
  have sh: "shape (rotated e i b w)"
    using st(1) by (auto simp: shape_def un flush_cmd_def) (simp_all add: rot)
  have ck: "chunk_ok (rotated e i b w)" using st(2) by (simp add: rot)
  have ct: "content (rotated e i b w) = bs @ [b]" if ne: "\<not> error (wt (rotated e i b w))"
  proof -
    from ne have "\<not> error (wt ?s)" by (simp add: rot)
    from st(3) [OF this] have c: "content ?s = bs @ [b]" .
    have pk: "\<And>q. pending (rotated e i b w) q = pending ?s q"
      by (rule pending_cong_peek) (simp add: rot)
    have "flushed (rotated e i b w) =
            flushed ?s @ take BUFF_SIZE (peek (cur_buff w) ?s)"
      by (simp add: flushed_def un pk) (simp add: rot flush_cmd_def)
    with c True show ?thesis
      by (simp add: content_def stage_facts) (simp add: rot)
  qed
  from pb(2) sh ck ct show ?thesis by (simp add: inv_def w')
qed

lemma puts_loop_inv:
  "inv bs w \<Longrightarrow> keeps_pace e \<Longrightarrow> puts_loop e i s wr w = Some (0, wr', w') \<Longrightarrow>
     inv (bs @ takeWhile (\<lambda>c. c \<noteq> 0) s) w'"
proof (induction s arbitrary: bs i wr w)
  case Nil
  then show ?case by simp
next
  case (Cons c s)
  show ?case
  proof (cases "c = 0")
    case True
    with Cons.prems show ?thesis by simp
  next
    case False
    with Cons.prems(3) obtain err wr1 w1 where
      pb: "push_byte e i c wr w = Some (err, wr1, w1)"
      by (auto split: option.splits)
    with False Cons.prems(3) have e0: "err = 0"
      and rest: "puts_loop e (i + 1) s wr1 w1 = Some (0, wr', w')"
      by (auto split: if_splits)
    from Cons.prems(2) have "lag e i \<le> 1" by (simp add: keeps_pace_def)
    from push_byte_inv [OF Cons.prems(1) this] pb e0 have "inv (bs @ [c]) w1" by simp
    from Cons.IH [OF this Cons.prems(2) rest] False show ?thesis by simp
  qed
qed

lemma do_write_inv:
  assumes "inv bs w" "keeps_pace e" "do_write e c w = Some (0, dst, w')"
  shows "inv (bs @ payload c) w'"
proof -
  from assms(1) have st: "mutex w" "state w = 1" by (simp_all add: inv_def session_ok_def)
  show ?thesis
  proof (cases c)
    case (Push b d)
    with assms(3) st obtain wr where "push_byte e 0 b False w = Some (0, wr, w')"
      by (auto simp: writer_push_session split: if_splits option.splits)
    moreover from assms(2) have "lag e 0 \<le> 1" by (simp add: keeps_pace_def)
    ultimately show ?thesis using push_byte_inv [OF assms(1)] Push by simp
  next
    case (Puts s d)
    with assms(3) st obtain wr where "puts_loop e 0 s False w = Some (0, wr, w')"
      by (auto simp: writer_puts_session split: if_splits option.splits)
    from puts_loop_inv [OF assms(1,2) this] Puts show ?thesis by simp
  qed
qed

lemma writes_inv:
  "inv bs w \<Longrightarrow> \<forall>x \<in> set cs. keeps_pace (fst x) \<Longrightarrow> writes cs w = Some w' \<Longrightarrow>
     inv (bs @ concat (map (payload \<circ> snd) cs)) w'"
proof (induction cs arbitrary: bs w)
  case Nil
  then show ?case by simp
next
  case (Cons x cs)
  obtain e c where x: "x = (e, c)" by (cases x)
  from Cons.prems(3) x obtain dst w1 where
    d: "do_write e c w = Some (0, dst, w1)" and r: "writes cs w1 = Some w'"
    by (auto split: option.splits if_splits)
  from Cons.prems(2) x have kp: "keeps_pace e" "\<forall>x \<in> set cs. keeps_pace (fst x)" by simp_all
  from Cons.IH [OF do_write_inv [OF Cons.prems(1) kp(1) d] kp(2) r] x
  show ?case by simp
qed

lemma start_inv:
  assumes "allocs_ok e" "state w = 0" "used w = 0" "planes_ok w"
  shows "inv [] (snd (writer_start e (Some path) w))"
proof -
  have eq: "snd (writer_start e (Some path) w) =
              w\<lparr>queue := Some [], mutex := True, events := Some False, task := True,
                 wt := task_begin (open_ok e) path, taken := None, state := 1\<rparr>"
    by (simp add: writer_start_opens [OF assms(1,2)])
  have "shape (snd (writer_start e (Some path) w))"
    "content (snd (writer_start e (Some path) w)) = []"
    "chunk_ok (snd (writer_start e (Some path) w))"
    unfolding eq using assms(3)
    by (simp_all add: shape_def content_def flushed_def unfinished_def the_queue_def
          task_begin_def chunk_ok_def)
  with session_ok_opened [OF assms(1,2,4)] show ?thesis by (simp add: inv_def)
qed

lemma finish_inv:
  assumes "inv bs w" "writer_finish e w = Some (0, w')" "\<not> error (wt w')"
  shows "stored (wt w') = bs"
proof -
  from assms(1) have so: "session_ok w" and ck: "chunk_ok w" by (simp_all add: inv_def)
  have ok: "take_ok e" "send_ok e 0"
    using writer_finish_session_fail [OF so, of e] assms(2) by auto
  from writer_finish_session [OF so ok] obtain w2 where
    f: "writer_finish e w = Some (0, closed w2)"
    and d: "chunk_ok w \<and> \<not> error (wt w2) \<longrightarrow>
       \<not> error (wt w) \<and> stored (wt w2) = flushed w @ take (used w) (peek (cur_buff w) w)"
    by blast
  from f assms(2) have "wt w' = wt w2" by (auto simp: closed_def)
  with d assms(1,3) ck show ?thesis by (simp add: inv_def content_def)
qed

section \<open>No error without a failing card\<close>

lemma task_iter_fine:
  "\<not> error t \<Longrightarrow> fst r (csize cmd) = csize cmd \<Longrightarrow> snd r \<Longrightarrow> \<not> error (task_iter r mem cmd t)"
  by (simp add: task_iter_def Let_def)

lemma worker_step_fine:
  "io_fine e \<Longrightarrow> \<not> error (wt w) \<Longrightarrow> \<not> error (wt (worker_step e w))"
  by (cases rule: worker_step_cases [of w e]) (simp_all add: io_fine_def task_iter_fine)

lemma worker_run_fine:
  "io_fine e \<Longrightarrow> \<not> error (wt w) \<Longrightarrow> \<not> error (wt (worker_run n e w))"
  by (induction n arbitrary: w) (simp_all add: worker_step_fine)

lemma worker_until_fine:
  "io_fine e \<Longrightarrow> \<not> error (wt w) \<Longrightarrow> \<not> error (wt (worker_until P n e w))"
  using worker_until_run [of n P e w] worker_run_fine [of e w] by auto

lemma room_fine:
  "io_fine e \<Longrightarrow> \<not> error (wt w) \<Longrightarrow> \<not> error (wt (room e w))"
  by (simp add: room_def worker_until_fine)

lemma before_store_fine:
  "io_fine e \<Longrightarrow> \<not> error (wt w) \<Longrightarrow> \<not> error (wt (before_store e i w))"
  using before_store_run [of e i w] worker_run_fine [of e w] by auto

lemma xQueueSend_fine:
  "io_fine e \<Longrightarrow> \<not> error (wt w) \<Longrightarrow> xQueueSend e i cmd w = Some (ok, w') \<Longrightarrow>
     \<not> error (wt w')"
  using room_fine [of e w]
  by (auto simp: xQueueSend_room split: if_splits)

lemma stage_fine:
  "io_fine e \<Longrightarrow> \<not> error (wt w) \<Longrightarrow> \<not> error (wt (stage e i b w))"
  by (simp add: stage_def before_store_fine)

lemma push_byte_fine:
  assumes "io_fine e" "\<not> error (wt w)" "push_byte e i b d w = Some (r, d', w')"
  shows "\<not> error (wt w')"
proof (cases "used w + 1 = BUFF_SIZE")
  case False
  with assms(3) have "w' = stage e i b w" by (simp add: push_byte_fill)
  with assms(1,2) show ?thesis by (simp add: stage_fine)
next
  case True
  with assms(3) obtain ok w1 where
    s: "xQueueSend e i (flush_cmd (cur_buff w)) (stage e i b w) = Some (ok, w1)"
    and w': "w' = w1\<lparr>cur_buff := other (cur_buff w), used := 0\<rparr>"
    by (auto simp: push_byte_rotate split: option.splits)
  from xQueueSend_fine [OF assms(1) stage_fine [OF assms(1,2)] s] w' show ?thesis by simp
qed

lemma puts_loop_fine:
  "io_fine e \<Longrightarrow> \<not> error (wt w) \<Longrightarrow> puts_loop e i s wr w = Some (r, wr', w') \<Longrightarrow>
     \<not> error (wt w')"
proof (induction s arbitrary: i wr w)
  case Nil
  then show ?case by simp
next
  case (Cons c s)
  show ?case
  proof (cases "c = 0")
    case True
    with Cons.prems show ?thesis by simp
  next
    case False
    with Cons.prems(3) obtain err wr1 w1 where
      pb: "push_byte e i c wr w = Some (err, wr1, w1)"
      by (auto split: option.splits)
    note ne = push_byte_fine [OF Cons.prems(1,2) pb]
    show ?thesis
    proof (cases "err = 0")
      case True
      with False pb Cons.prems(3) have "puts_loop e (i + 1) s wr1 w1 = Some (r, wr', w')"
        by simp
      from Cons.IH [OF Cons.prems(1) ne this] show ?thesis .
    next
      case False
      with \<open>c \<noteq> 0\<close> pb Cons.prems(3) ne show ?thesis by simp
    qed
  qed
qed

lemma do_write_fine:
  assumes "io_fine e" "\<not> error (wt w)" "do_write e c w = Some (r, dst, w')"
  shows "\<not> error (wt w')"
proof (cases c)
  case (Push b d)
  with assms(3) show ?thesis
    using push_byte_fine [OF assms(1,2)] assms(2)
    by (auto simp: writer_push_def xSemaphoreTake_def split: if_splits option.splits)
next
  case (Puts s d)
  with assms(3) show ?thesis
    using puts_loop_fine [OF assms(1,2)] assms(2)
    by (auto simp: writer_puts_def xSemaphoreTake_def split: if_splits option.splits)
qed

lemma writes_fine:
  "\<forall>x \<in> set cs. io_fine (fst x) \<Longrightarrow> \<not> error (wt w) \<Longrightarrow> writes cs w = Some w' \<Longrightarrow>
     \<not> error (wt w')"
proof (induction cs arbitrary: w)
  case Nil
  then show ?case by simp
next
  case (Cons x cs)
  obtain e c where x: "x = (e, c)" by (cases x)
  from Cons.prems(3) x obtain dst w1 where
    d: "do_write e c w = Some (0, dst, w1)" and r: "writes cs w1 = Some w'"
    by (auto split: option.splits if_splits)
  from Cons.prems(1) x have f: "io_fine e" "\<forall>x \<in> set cs. io_fine (fst x)" by simp_all
  from Cons.IH [OF f(2) do_write_fine [OF f(1) Cons.prems(2) d] r] show ?case .
qed

lemma xEventGroupWaitBits_fine:
  "io_fine e \<Longrightarrow> \<not> error (wt w) \<Longrightarrow> xEventGroupWaitBits e w = Some w' \<Longrightarrow> \<not> error (wt w')"
  using worker_until_fine [of e w "\<lambda>w. \<not> alive (wt w)" "work_left w"]
  by (auto simp: xEventGroupWaitBits_def Let_def split: if_splits)

lemma writer_finish_fine:
  assumes "io_fine e" "\<not> error (wt w)" "writer_finish e w = Some (r, w')"
  shows "\<not> error (wt w')"
proof -
  note m = write_returns(3) [OF assms(3)]
  show ?thesis
  proof (cases "take_ok e")
    case False
    with assms m show ?thesis by (simp add: writer_finish_no_lock)
  next
    case True
    from assms(3) obtain ok w1 where
      s: "xQueueSend e 0 \<lparr>op = OP_EXIT, data = cur_buff w, csize = used w\<rparr> w = Some (ok, w1)"
      by (auto simp: writer_finish_lock [OF m True] split: option.splits)
    note n1 = xQueueSend_fine [OF assms(1,2) s]
    show ?thesis
    proof (cases ok)
      case False
      with assms(3) s n1 show ?thesis by (simp add: writer_finish_lock [OF m True])
    next
      case True
      with assms(3) s obtain w2 where
        "xEventGroupWaitBits e w1 = Some w2" "w' = closed w2"
        by (auto simp: writer_finish_lock [OF m \<open>take_ok e\<close>] split: option.splits)
      with xEventGroupWaitBits_fine [OF assms(1) n1] show ?thesis by (simp add: closed_def)
    qed
  qed
qed

section \<open>A failed start gives no session\<close>

lemma writer_start_refused:
  assumes "\<not> allocs_ok e" "state w = 0"
  shows "state (snd (writer_start e (Some path) w)) = 0"
    and "\<not> mutex (snd (writer_start e (Some path) w))"
  using assms by (simp_all add: writer_start_def allocs_ok_def Let_def)

lemma writes_null_mutex:
  assumes "\<not> mutex w" "writes cs w = Some w'"
  shows "cs = [] \<and> w' = w"
proof (cases cs)
  case Nil
  with assms show ?thesis by simp
next
  case (Cons x cs')
  obtain e c where x: "x = (e, c)" by (cases x)
  have "do_write e c w = None"
    using assms(1) by (cases c) (simp_all add: write_null_mutex)
  with assms(2) Cons x show ?thesis by simp
qed

lemma session_needs_start:
  assumes "state w0 = 0" "session w0 e0 path cs e1 = Some t"
  shows "allocs_ok e0"
proof (rule ccontr)
  assume n: "\<not> allocs_ok e0"
  let ?w = "snd (writer_start e0 (Some path) w0)"
  note r = writer_start_refused [OF n assms(1), of path]
  from assms(2) obtain w1 where w1: "writes cs ?w = Some w1"
    by (auto simp: session_def split: option.splits)
  from writes_null_mutex [OF r(2) w1] have "w1 = ?w" by simp
  with assms(2) w1 obtain w' where "writer_finish e1 ?w = Some (0, w')"
    by (auto simp: session_def split: option.splits if_splits)
  with write_null_mutex(3) [OF r(2), of e1] show False by simp
qed

section \<open>What the calls do to the state and the mutex\<close>

lemma writer_start_state:
  "state (snd (writer_start e path w)) = 0 \<Longrightarrow>
     state w = 0 \<and> used (snd (writer_start e path w)) = used w"
  by (simp add: writer_start_def Let_def split: if_splits)

lemma writer_finish_state:
  assumes "writer_finish e w = Some (r, w')" "state w' = 0"
  shows "used w' = 0 \<or> (state w = 0 \<and> used w' = used w)"
proof -
  note m = write_returns(3) [OF assms(1)]
  show ?thesis
  proof (cases "take_ok e")
    case False
    with assms m show ?thesis by (simp add: writer_finish_no_lock)
  next
    case True
    from assms(1) obtain ok w1 where
      s: "xQueueSend e 0 \<lparr>op = OP_EXIT, data = cur_buff w, csize = used w\<rparr> w = Some (ok, w1)"
      by (auto simp: writer_finish_lock [OF m True] split: option.splits)
    show ?thesis
    proof (cases ok)
      case False
      with assms s have "w' = w1" by (simp add: writer_finish_lock [OF m True])
      with xQueueSend_keeps(1,7) [OF s] assms(2) show ?thesis by simp
    next
      case True
      with assms(1) s obtain w2 where "w' = closed w2"
        by (auto simp: writer_finish_lock [OF m \<open>take_ok e\<close>] split: option.splits)
      then show ?thesis by (simp add: closed_def)
    qed
  qed
qed

lemma push_byte_state:
  assumes "push_byte e i b d w = Some (r, d', w')"
  shows "state w' = state w"
proof (cases "used w + 1 = BUFF_SIZE")
  case False
  with assms have "w' = stage e i b w" by (simp add: push_byte_fill)
  then show ?thesis by (simp add: stage_facts)
next
  case True
  with assms obtain ok w1 where
    s: "xQueueSend e i (flush_cmd (cur_buff w)) (stage e i b w) = Some (ok, w1)"
    and w': "w' = w1\<lparr>cur_buff := other (cur_buff w), used := 0\<rparr>"
    by (auto simp: push_byte_rotate split: option.splits)
  from xQueueSend_keeps(1) [OF s] w' show ?thesis by (simp add: stage_facts)
qed

lemma puts_loop_state:
  "puts_loop e i s wr w = Some (r, wr', w') \<Longrightarrow> state w' = state w"
proof (induction s arbitrary: i wr w)
  case Nil
  then show ?case by simp
next
  case (Cons c s)
  show ?case
  proof (cases "c = 0")
    case True
    with Cons.prems show ?thesis by simp
  next
    case False
    with Cons.prems obtain err wr1 w1 where
      pb: "push_byte e i c wr w = Some (err, wr1, w1)"
      by (auto split: option.splits)
    note st = push_byte_state [OF pb]
    show ?thesis
    proof (cases "err = 0")
      case True
      with False pb Cons.prems have "puts_loop e (i + 1) s wr1 w1 = Some (r, wr', w')"
        by simp
      from Cons.IH [OF this] st show ?thesis by simp
    next
      case False
      with \<open>c \<noteq> 0\<close> pb Cons.prems st show ?thesis by simp
    qed
  qed
qed

lemma push_byte_mutex:
  assumes "push_byte e i b d w = Some (r, d', w')"
  shows "mutex w' = mutex w"
proof (cases "used w + 1 = BUFF_SIZE")
  case False
  with assms have "w' = stage e i b w" by (simp add: push_byte_fill)
  then show ?thesis by (simp add: stage_facts)
next
  case True
  with assms obtain ok w1 where
    s: "xQueueSend e i (flush_cmd (cur_buff w)) (stage e i b w) = Some (ok, w1)"
    and w': "w' = w1\<lparr>cur_buff := other (cur_buff w), used := 0\<rparr>"
    by (auto simp: push_byte_rotate split: option.splits)
  from xQueueSend_keeps(2) [OF s] w' show ?thesis by (simp add: stage_facts)
qed

lemma puts_loop_mutex:
  "puts_loop e i s wr w = Some (r, wr', w') \<Longrightarrow> mutex w' = mutex w"
proof (induction s arbitrary: i wr w)
  case Nil
  then show ?case by simp
next
  case (Cons c s)
  show ?case
  proof (cases "c = 0")
    case True
    with Cons.prems show ?thesis by simp
  next
    case False
    with Cons.prems obtain err wr1 w1 where
      pb: "push_byte e i c wr w = Some (err, wr1, w1)"
      by (auto split: option.splits)
    note st = push_byte_mutex [OF pb]
    show ?thesis
    proof (cases "err = 0")
      case True
      with False pb Cons.prems have "puts_loop e (i + 1) s wr1 w1 = Some (r, wr', w')"
        by simp
      from Cons.IH [OF this] st show ?thesis by simp
    next
      case False
      with \<open>c \<noteq> 0\<close> pb Cons.prems st show ?thesis by simp
    qed
  qed
qed

lemma write_keeps_state:
  shows "writer_push e b dst w = Some (r, dst', w') \<Longrightarrow> state w' = state w \<and> mutex w' = mutex w"
    and "writer_puts e s dst w = Some (r, dst', w') \<Longrightarrow> state w' = state w \<and> mutex w' = mutex w"
proof -
  show "state w' = state w \<and> mutex w' = mutex w"
    if h: "writer_push e b dst w = Some (r, dst', w')"
  proof -
    note m = write_returns(1) [OF h]
    show ?thesis
    proof (cases "take_ok e \<and> state w = 1")
      case False
      with h have "w' = w"
        using write_closed(1) [OF m, of e b dst] write_no_lock(1) [OF m, of e b dst] by auto
      then show ?thesis by simp
    next
      case True
      with h obtain err wr where "push_byte e 0 b False w = Some (err, wr, w')"
        by (auto simp: writer_push_session [OF m] split: option.splits)
      from push_byte_state [OF this] push_byte_mutex [OF this] show ?thesis by simp
    qed
  qed
  show "state w' = state w \<and> mutex w' = mutex w"
    if h: "writer_puts e s dst w = Some (r, dst', w')"
  proof -
    note m = write_returns(2) [OF h]
    show ?thesis
    proof (cases "take_ok e \<and> state w = 1")
      case False
      with h have "w' = w"
        using write_closed(2) [OF m, of e s dst] write_no_lock(2) [OF m, of e s dst] by auto
      then show ?thesis by simp
    next
      case True
      with h obtain r1 wr where "puts_loop e 0 s False w = Some (r1, wr, w')"
        by (auto simp: writer_puts_session [OF m] split: option.splits)
      from puts_loop_state [OF this] puts_loop_mutex [OF this] show ?thesis by simp
    qed
  qed
qed

lemma writer_finish_closes:
  assumes "writer_finish e w = Some (r, w')"
  shows "(state w' = 0 \<and> \<not> mutex w') \<or> (state w' = state w \<and> mutex w' = mutex w)"
proof -
  note m = write_returns(3) [OF assms]
  show ?thesis
  proof (cases "take_ok e")
    case False
    with assms m show ?thesis by (simp add: writer_finish_no_lock)
  next
    case True
    from assms obtain ok w1 where
      s: "xQueueSend e 0 \<lparr>op = OP_EXIT, data = cur_buff w, csize = used w\<rparr> w = Some (ok, w1)"
      by (auto simp: writer_finish_lock [OF m True] split: option.splits)
    show ?thesis
    proof (cases ok)
      case False
      with assms s have "w' = w1" by (simp add: writer_finish_lock [OF m True])
      with xQueueSend_keeps(1,2) [OF s] show ?thesis by simp
    next
      case True
      with assms s obtain w2 where "w' = closed w2"
        by (auto simp: writer_finish_lock [OF m \<open>take_ok e\<close>] split: option.splits)
      then show ?thesis by (simp add: closed_def)
    qed
  qed
qed

lemma writer_start_mutex:
  "state (snd (writer_start e path w)) \<noteq> 1 \<Longrightarrow> \<not> mutex (snd (writer_start e path w))"
  by (simp add: writer_start_def Let_def split: if_splits)

section \<open>Writing without a session\<close>

lemma closed_means_null_mutex: "reachable w \<Longrightarrow> state w \<noteq> 1 \<Longrightarrow> \<not> mutex w"
proof (induction rule: reachable.induct)
  case init
  then show ?case by (simp add: writer_init_def)
next
  case (start w e path r w')
  from start.hyps(2) have "w' = snd (writer_start e path w)" by simp
  with writer_start_mutex [of e path w] start.prems show ?case by simp
next
  case (puts w e s dst r dst' w')
  with write_keeps_state(2) [OF puts.hyps(2)] show ?case by simp
next
  case (push w e b dst r dst' w')
  with write_keeps_state(1) [OF push.hyps(2)] show ?case by simp
next
  case (finish w e r w')
  with writer_finish_closes [OF finish.hyps(2)] show ?case by auto
qed

text \<open>
  C10 does not hold. In every state the public functions can produce in which no session is
  open, the mutex handle is \<open>NULL\<close>. \<open>writer_push\<close> and \<open>writer_puts\<close> take
  the mutex before they check the state, so in such a state they do not return: the state
  check that would return the error is never reached.
\<close>

theorem write_without_session_does_not_return:
  "reachable w \<Longrightarrow> state w \<noteq> 1 \<Longrightarrow>
     \<not> mutex w \<and> writer_push e b dst w = None \<and> writer_puts e s dst w = None"
  using closed_means_null_mutex [of w] by (simp add: write_null_mutex)

theorem write_without_session_does_not_return_witness:
  "reachable writer_init \<and> state writer_init \<noteq> 1 \<and>
   writer_push env_ok 65 (Some False) writer_init = None \<and>
   writer_puts env_ok [65, 66] (Some False) writer_init = None"
proof -
  have z: "state writer_init \<noteq> 1" by (simp add: writer_init_def)
  from write_without_session_does_not_return [OF reachable.init z, of env_ok 65 "Some False"
      "[65, 66]"] z reachable.init
  show ?thesis by simp
qed

section \<open>The bytes on the card\<close>

lemma reachable_closed_empty: "reachable w \<Longrightarrow> state w = 0 \<Longrightarrow> used w = 0"
proof (induction rule: reachable.induct)
  case init
  then show ?case by (simp add: writer_init_def)
next
  case (start w e path r w')
  from start.hyps(2) have "w' = snd (writer_start e path w)" by simp
  with writer_start_state [of e path w] start.prems start.IH show ?case by simp
next
  case (puts w e s dst r dst' w')
  from closed_means_null_mutex [OF reachable.puts [OF puts.hyps(1,2)]] puts.prems
  have "\<not> mutex w'" by simp
  with write_keeps_state(2) [OF puts.hyps(2)] write_returns(2) [OF puts.hyps(2)]
  show ?case by simp
next
  case (push w e b dst r dst' w')
  from closed_means_null_mutex [OF reachable.push [OF push.hyps(1,2)]] push.prems
  have "\<not> mutex w'" by simp
  with write_keeps_state(1) [OF push.hyps(2)] write_returns(1) [OF push.hyps(2)]
  show ?case by simp
next
  case (finish w e r w')
  with writer_finish_state show ?case by fastforce
qed

text \<open>
  C1, amended. Take a session that starts in any closed state the public functions can
  produce: a start, writes that all return 0 and a finish that returns 0, with no error
  flagged by the task. If, whenever a byte is stored, the task has finished all the commands
  sent but at most one, the bytes on the card are the bytes of the writes, in call order. A
  command is finished when the task has taken it from the queue, read its plane and written
  it; the one unfinished command may be waiting, taken, or partly read.
\<close>

theorem stored_bytes_when_task_keeps_pace:
  assumes "reachable w0" "state w0 = 0"
    and "\<forall>x \<in> set cs. keeps_pace (fst x)"
    and "session w0 e0 path cs e1 = Some t" "\<not> error t"
  shows "stored t = concat (map (payload \<circ> snd) cs)"
proof -
  let ?w = "snd (writer_start e0 (Some path) w0)"
  from assms(4) obtain w1 w2 where
    w1: "writes cs ?w = Some w1" and w2: "writer_finish e1 w1 = Some (0, w2)"
    and t: "t = wt w2"
    by (auto simp: session_def split: option.splits if_splits)
  have "inv [] ?w"
    by (rule start_inv [OF session_needs_start [OF assms(2,4)] assms(2)
          reachable_closed_empty [OF assms(1,2)] reachable_planes_ok [OF assms(1)]])
  from writes_inv [OF this assms(3) w1]
  have "inv (concat (map (payload \<circ> snd) cs)) w1" by simp
  from finish_inv [OF this w2] assms(5) t show ?thesis by simp
qed

section \<open>Writes succeed when the RTOS calls do\<close>

lemma BUFF_SIZE_pos: "0 < BUFF_SIZE"
  by (simp add: BUFF_SIZE_def)

lemma push_byte_succeeds:
  assumes "session_ok w" "send_ok e i"
  shows "\<exists>d' w'. push_byte e i b d w = Some (0, d', w') \<and> session_ok w'"
proof (cases "used w + 1 = BUFF_SIZE")
  case False
  from push_byte_session_fill(1,2) [OF assms(1) False] show ?thesis by blast
next
  case True
  from push_byte_session_rotate(1,2) [OF assms(1) True, of e i b] assms(2) show ?thesis by auto
qed

lemma puts_loop_succeeds:
  "session_ok w \<Longrightarrow> \<forall>i. send_ok e i \<Longrightarrow>
     \<exists>wr' w'. puts_loop e i s wr w = Some (0, wr', w') \<and> session_ok w'"
proof (induction s arbitrary: i wr w)
  case Nil
  then show ?case by simp
next
  case (Cons c s)
  show ?case
  proof (cases "c = 0")
    case True
    with Cons.prems show ?thesis by simp
  next
    case False
    from Cons.prems(2) have "send_ok e i" by simp
    from push_byte_succeeds [OF Cons.prems(1) this, of c wr] obtain wr1 w1 where
      pb: "push_byte e i c wr w = Some (0, wr1, w1)" and ok: "session_ok w1" by blast
    from Cons.IH [OF ok Cons.prems(2), of "i + 1" wr1] pb False show ?thesis by simp
  qed
qed

lemma do_write_succeeds:
  assumes "session_ok w" "take_ok e" "\<forall>i. send_ok e i"
  shows "\<exists>d w'. do_write e c w = Some (0, d, w') \<and> session_ok w'"
proof -
  from assms(1) have st: "mutex w" "state w = 1" by (simp_all add: session_ok_def)
  show ?thesis
  proof (cases c)
    case (Push b dst)
    from assms(3) have "send_ok e 0" by simp
    from push_byte_succeeds [OF assms(1) this, of b False] obtain wr w' where
      "push_byte e 0 b False w = Some (0, wr, w')" "session_ok w'" by blast
    with Push st assms(2) show ?thesis by (simp add: writer_push_session)
  next
    case (Puts s dst)
    from puts_loop_succeeds [OF assms(1,3), of 0 s False] obtain wr w' where
      "puts_loop e 0 s False w = Some (0, wr, w')" "session_ok w'" by blast
    with Puts st assms(2) show ?thesis by (simp add: writer_puts_session)
  qed
qed

lemma writes_succeed:
  "session_ok w \<Longrightarrow> \<forall>x \<in> set cs. env_fine (fst x) \<Longrightarrow>
     \<exists>w'. writes cs w = Some w' \<and> session_ok w'"
proof (induction cs arbitrary: w)
  case Nil
  then show ?case by simp
next
  case (Cons x cs)
  obtain e c where x: "x = (e, c)" by (cases x)
  from Cons.prems(2) x have f: "take_ok e" "\<forall>i. send_ok e i" "\<forall>x \<in> set cs. env_fine (fst x)"
    by (simp_all add: env_fine_def)
  from do_write_succeeds [OF Cons.prems(1) f(1,2), of c] obtain d w1 where
    d: "do_write e c w = Some (0, d, w1)" and ok: "session_ok w1" by blast
  from Cons.IH [OF ok f(3)] d x show ?case by simp
qed

lemma session_succeeds:
  assumes "allocs_ok e0" "open_ok e0" "\<forall>x \<in> set cs. env_fine (fst x)" "env_fine e1"
    and "state w0 = 0" "planes_ok w0"
  shows "\<exists>t. session w0 e0 path cs e1 = Some t \<and> \<not> error t"
proof -
  let ?w = "snd (writer_start e0 (Some path) w0)"
  have ne: "\<not> error (wt ?w)"
    using assms(2) by (simp add: writer_start_opens [OF assms(1,5)] task_begin_def)
  from writes_succeed [OF session_ok_opened [OF assms(1,5,6)] assms(3)] obtain w1 where
    w1: "writes cs ?w = Some w1" and ok: "session_ok w1" by blast
  from assms(3) have "\<forall>x \<in> set cs. io_fine (fst x)" by (simp add: env_fine_def)
  from writes_fine [OF this ne w1] have ne1: "\<not> error (wt w1)" .
  from assms(4) have f: "take_ok e1" "send_ok e1 0" "io_fine e1" by (simp_all add: env_fine_def)
  from writer_finish_session [OF ok f(1,2)] obtain w2 where
    w2: "writer_finish e1 w1 = Some (0, w2)" by blast
  from writer_finish_fine [OF f(3) ne1 w2] w1 w2 show ?thesis
    by (simp add: session_def)
qed

lemma env_ok_fine: "env_fine env_ok" "allocs_ok env_ok" "open_ok env_ok" "keeps_pace env_ok"
  by (simp_all add: env_fine_def io_fine_def allocs_ok_def keeps_pace_def env_ok_def)

lemma env_pace_fine: "env_fine env_pace" "keeps_pace env_pace"
  by (simp_all add: env_fine_def io_fine_def keeps_pace_def env_pace_def env_ok_def)

lemma long_text_payload: "takeWhile (\<lambda>c. c \<noteq> 0) long_text = long_text"
  by (auto simp: long_text_def)

theorem stored_bytes_when_task_keeps_pace_witness:
  "reachable writer_init \<and> state writer_init = 0 \<and> keeps_pace env_ok \<and> keeps_pace env_pace \<and>
   (\<exists>t. session writer_init env_ok ''/output-001.csv''
           [(env_ok, Push 65 None), (env_ok, Puts [66, 67] None)] env_ok = Some t \<and>
        \<not> error t \<and> stored t = [65, 66, 67]) \<and>
   (\<exists>t. session writer_init env_ok ''/output-001.csv''
           [(env_pace, Puts long_text None)] env_ok = Some t \<and>
        \<not> error t \<and>
        stored t = replicate BUFF_SIZE 65 @ replicate BUFF_SIZE 66 @ [67])"
proof -
  let ?cs = "[(env_ok, Push 65 None), (env_ok, Puts [66, 67] None)]"
  let ?ds = "[(env_pace, Puts long_text None)]"
  have z: "state writer_init = 0" by (simp add: writer_init_def)
  have kp: "\<forall>x \<in> set ?cs. keeps_pace (fst x)" by (simp add: env_ok_fine)
  have "\<forall>x \<in> set ?cs. env_fine (fst x)" by (simp add: env_ok_fine)
  from session_succeeds [OF env_ok_fine(2,3) this env_ok_fine(1) z planes_ok_init,
      of "''/output-001.csv''"]
  obtain t where
    t: "session writer_init env_ok ''/output-001.csv'' ?cs env_ok = Some t" "\<not> error t"
    by blast
  from stored_bytes_when_task_keeps_pace [OF reachable.init z kp t]
  have st: "stored t = [65, 66, 67]" by simp
  have kq: "\<forall>x \<in> set ?ds. keeps_pace (fst x)" by (simp add: env_pace_fine)
  have "\<forall>x \<in> set ?ds. env_fine (fst x)" by (simp add: env_pace_fine)
  from session_succeeds [OF env_ok_fine(2,3) this env_ok_fine(1) z planes_ok_init,
      of "''/output-001.csv''"]
  obtain u where
    u: "session writer_init env_ok ''/output-001.csv'' ?ds env_ok = Some u" "\<not> error u"
    by blast
  from stored_bytes_when_task_keeps_pace [OF reachable.init z kq u]
  have su: "stored u = replicate BUFF_SIZE 65 @ replicate BUFF_SIZE 66 @ [67]"
    by (simp add: long_text_payload) (simp add: long_text_def)
  from env_ok_fine(4) env_pace_fine(2) t st u su z reachable.init show ?thesis by blast
qed

section \<open>A task that falls two planes behind\<close>

lemma stage_lazy:
  "length (unfinished w) \<le> lag e i \<Longrightarrow> ahead e i = 0 \<Longrightarrow>
     stage e i b w = (poke (cur_buff w) (used w) b w)\<lparr>used := used w + 1\<rparr>"
  by (simp add: stage_def before_store_def worker_catch_up_def worker_until_idle)

lemma puts_loop_append:
  "0 \<notin> set xs \<Longrightarrow> puts_loop e i xs wr w = Some (0, wr', w') \<Longrightarrow>
     puts_loop e i (xs @ ys) wr w = puts_loop e (i + length xs) ys wr' w'"
proof (induction xs arbitrary: i wr w)
  case Nil
  then show ?case by simp
next
  case (Cons c xs)
  from Cons.prems(1) have c: "c \<noteq> 0" and xs: "0 \<notin> set xs" by auto
  from Cons.prems(2) c obtain wr1 w1 where
    pb: "push_byte e i c wr w = Some (0, wr1, w1)"
    and rest: "puts_loop e (i + 1) xs wr1 w1 = Some (0, wr', w')"
    by (auto split: option.splits if_splits)
  from Cons.IH [OF xs rest] pb c show ?case by simp
qed

lemma puts_loop_lazy_fill:
  "session_ok w \<Longrightarrow> 0 \<notin> set bs \<Longrightarrow> used w + length bs < BUFF_SIZE \<Longrightarrow>
   \<forall>i. length (unfinished w) \<le> lag e i \<and> ahead e i = 0 \<Longrightarrow>
     \<exists>w'. puts_loop e i bs wr w = Some (0, wr, w') \<and> session_ok w' \<and> queue w' = queue w \<and>
          taken w' = taken w \<and>
          wt w' = wt w \<and> cur_buff w' = cur_buff w \<and> used w' = used w + length bs \<and>
          peek (cur_buff w) w' =
            take (used w) (peek (cur_buff w) w) @ bs @
            drop (used w + length bs) (peek (cur_buff w) w) \<and>
          peek (other (cur_buff w)) w' = peek (other (cur_buff w)) w"
proof (induction bs arbitrary: i w)
  case Nil
  then show ?case by simp
next
  case (Cons c bs)
  from Cons.prems(2) have c: "c \<noteq> 0" and bs: "0 \<notin> set bs" by auto
  from Cons.prems(3) have ne: "used w + 1 \<noteq> BUFF_SIZE" by simp
  let ?s = "stage e i c w"
  let ?xs = "peek (cur_buff w) w"
  note pb = push_byte_session_fill(1,2) [OF Cons.prems(1) ne, of e i c]
  from Cons.prems(4) have lz: "length (unfinished w) \<le> lag e i" "ahead e i = 0" by simp_all
  have s: "queue ?s = queue w" "wt ?s = wt w" "cur_buff ?s = cur_buff w" "used ?s = used w + 1"
    "taken ?s = taken w"
    by (simp_all add: stage_lazy [OF lz])
  have pk: "peek (cur_buff w) ?s = ?xs[used w := c]"
    "peek (other (cur_buff w)) ?s = peek (other (cur_buff w)) w"
    by (simp_all add: stage_lazy [OF lz] peek_poke)
  from Cons.prems(1) have len: "length ?xs = BUFF_SIZE"
    by (simp add: session_ok_def planes_ok_def peek_def split: plane.splits)
  with Cons.prems(3) have lt: "used w < length ?xs" by simp
  from s have q: "unfinished ?s = unfinished w" by (simp add: unfinished_def the_queue_def)
  have "used ?s + length bs < BUFF_SIZE" using Cons.prems(3) s by simp
  moreover have "\<forall>i. length (unfinished ?s) \<le> lag e i \<and> ahead e i = 0"
    using Cons.prems(4) q by simp
  ultimately obtain w' where
    w': "puts_loop e (i + 1) bs wr ?s = Some (0, wr, w')" "session_ok w'" "queue w' = queue ?s"
      "wt w' = wt ?s" "cur_buff w' = cur_buff ?s" "used w' = used ?s + length bs"
      "peek (cur_buff ?s) w' =
         take (used ?s) (peek (cur_buff ?s) ?s) @ bs @
         drop (used ?s + length bs) (peek (cur_buff ?s) ?s)"
      "peek (other (cur_buff ?s)) w' = peek (other (cur_buff ?s)) ?s"
      "taken w' = taken ?s"
    using Cons.IH [OF pb(2) bs, of "i + 1"] by blast
  have "peek (cur_buff w) w' =
          take (used w) ?xs @ (c # bs) @ drop (used w + length (c # bs)) ?xs"
    using w'(7) lt by (simp add: s pk take_Suc_update)
  moreover have "peek (other (cur_buff w)) w' = peek (other (cur_buff w)) w"
    using w'(8) by (simp add: s pk)
  ultimately show ?case using pb(1) c s w'(1-6,9) by simp
qed

lemma push_byte_lazy_rotate:
  assumes "session_ok w" "used w + 1 = BUFF_SIZE"
    and "length (unfinished w) \<le> lag e i \<and> ahead e i = 0"
    and "qlen w < QUEUE_DEPTH" "send_ok e i"
  shows "push_byte e i b wr w = Some (0, True, rotated e i b w)"
    and "session_ok (rotated e i b w)"
    and "queue (rotated e i b w) = Some (the_queue w @ [flush_cmd (cur_buff w)])"
    and "wt (rotated e i b w) = wt w"
    and "cur_buff (rotated e i b w) = other (cur_buff w)"
    and "used (rotated e i b w) = 0"
    and "peek (cur_buff w) (rotated e i b w) = (peek (cur_buff w) w)[used w := b]"
    and "peek (other (cur_buff w)) (rotated e i b w) = peek (other (cur_buff w)) w"
    and "taken (rotated e i b w) = taken w"
proof -
  note pb = push_byte_session_rotate [OF assms(1,2), of e i b]
  let ?s = "stage e i b w"
  from assms(3) have lz: "length (unfinished w) \<le> lag e i" "ahead e i = 0" by simp_all
  have s: "?s = (poke (cur_buff w) (used w) b w)\<lparr>used := used w + 1\<rparr>"
    by (rule stage_lazy [OF lz])
  have q: "the_queue ?s = the_queue w" by (simp add: s)
  have idle: "room e ?s = ?s"
    using assms(4) by (intro room_idle) (simp add: qlen_def q)
  have rot: "rotated e i b w =
               ?s\<lparr>queue := Some (the_queue w @ [flush_cmd (cur_buff w)]),
                  cur_buff := other (cur_buff w), used := 0\<rparr>"
    unfolding rotated_def idle Let_def q using assms(5) by simp
  show "push_byte e i b wr w = Some (0, True, rotated e i b w)"
    using pb(1) assms(5) by simp
  show "session_ok (rotated e i b w)" by (rule pb(2))
  show "queue (rotated e i b w) = Some (the_queue w @ [flush_cmd (cur_buff w)])"
    by (simp add: rot)
  show "wt (rotated e i b w) = wt w" by (simp add: rot) (simp add: s)
  show "cur_buff (rotated e i b w) = other (cur_buff w)" "used (rotated e i b w) = 0"
    by (simp_all add: rot)
  show "peek (cur_buff w) (rotated e i b w) = (peek (cur_buff w) w)[used w := b]"
    "peek (other (cur_buff w)) (rotated e i b w) = peek (other (cur_buff w)) w"
    by (simp_all add: rot) (simp_all add: s peek_poke)
  show "taken (rotated e i b w) = taken w" by (simp add: rot) (simp add: s)
qed

lemma puts_loop_lazy_plane:
  assumes "session_ok w" "used w = 0" "b \<noteq> 0"
    and "\<forall>i. length (unfinished w) \<le> lag e i \<and> ahead e i = 0"
    and "qlen w < QUEUE_DEPTH" "\<forall>i. send_ok e i"
  shows "\<exists>w'. puts_loop e i (replicate BUFF_SIZE b @ ys) wr w =
                 puts_loop e (i + BUFF_SIZE) ys True w' \<and>
              session_ok w' \<and> queue w' = Some (the_queue w @ [flush_cmd (cur_buff w)]) \<and>
              wt w' = wt w \<and> taken w' = taken w \<and>
              cur_buff w' = other (cur_buff w) \<and> used w' = 0 \<and>
              peek (cur_buff w) w' = replicate BUFF_SIZE b \<and>
              peek (other (cur_buff w)) w' = peek (other (cur_buff w)) w"
proof -
  let ?n = "BUFF_SIZE - 1"
  have rep: "replicate BUFF_SIZE b @ ys = replicate ?n b @ (b # ys)"
    using BUFF_SIZE_pos
    by (metis Suc_pred' append.assoc append_Cons append_Nil replicate_Suc replicate_append_same)
  have nz: "0 \<notin> set (replicate ?n b)" using assms(3) by auto
  have lt: "used w + length (replicate ?n b) < BUFF_SIZE"
    using assms(2) BUFF_SIZE_pos by simp
  from puts_loop_lazy_fill [OF assms(1) nz lt assms(4), of i wr] obtain w1 where
    w1: "puts_loop e i (replicate ?n b) wr w = Some (0, wr, w1)" "session_ok w1"
        "queue w1 = queue w" "wt w1 = wt w" "cur_buff w1 = cur_buff w"
        "used w1 = used w + length (replicate ?n b)"
        "peek (cur_buff w) w1 =
           take (used w) (peek (cur_buff w) w) @ replicate ?n b @
           drop (used w + length (replicate ?n b)) (peek (cur_buff w) w)"
        "peek (other (cur_buff w)) w1 = peek (other (cur_buff w)) w"
        "taken w1 = taken w"
    by blast
  have q1: "the_queue w1 = the_queue w" using w1(3) by (simp add: the_queue_def)
  have uf1: "unfinished w1 = unfinished w" using w1(9) q1 by (simp add: unfinished_def)
  have u1: "used w1 + 1 = BUFF_SIZE" using w1(6) assms(2) BUFF_SIZE_pos by simp
  have l1: "length (unfinished w1) \<le> lag e (i + ?n) \<and> ahead e (i + ?n) = 0"
    using assms(4) uf1 by simp
  have l2: "qlen w1 < QUEUE_DEPTH" using assms(5) q1 by (simp add: qlen_def)
  from assms(6) have so: "send_ok e (i + ?n)" by simp
  note r = push_byte_lazy_rotate [OF w1(2) u1 l1 l2 so]
  let ?w' = "rotated e (i + ?n) b w1"
  have "puts_loop e i (replicate BUFF_SIZE b @ ys) wr w =
          puts_loop e (i + ?n) (b # ys) wr w1"
    unfolding rep using puts_loop_append [OF nz w1(1)] by simp
  also have "\<dots> = puts_loop e (i + BUFF_SIZE) ys True ?w'"
    using r(1) assms(3) BUFF_SIZE_pos by simp
  finally have run: "puts_loop e i (replicate BUFF_SIZE b @ ys) wr w =
                       puts_loop e (i + BUFF_SIZE) ys True ?w'" .
  from r(2) have len: "length (peek (cur_buff w) ?w') = BUFF_SIZE"
    by (simp add: session_ok_def planes_ok_def peek_def split: plane.splits)
  let ?zs = "peek (cur_buff w) w1"
  have lz: "length ?zs = BUFF_SIZE"
    using w1(2) by (simp add: session_ok_def planes_ok_def peek_def split: plane.splits)
  have uw: "used w1 = ?n" using w1(6) assms(2) by simp
  have tz: "take ?n ?zs = replicate ?n b"
    using w1(7) assms(2) by simp
  have "peek (cur_buff w) ?w' = ?zs[?n := b]"
    using r(7) w1(5) uw by simp
  moreover have "?zs[?n := b] = take (Suc ?n) (?zs[?n := b])"
    using lz BUFF_SIZE_pos by simp
  moreover have "take (Suc ?n) (?zs[?n := b]) = take ?n ?zs @ [b]"
    using lz BUFF_SIZE_pos by (intro take_Suc_update) simp
  ultimately have "peek (cur_buff w) ?w' = replicate ?n b @ [b]"
    using tz by simp
  also have "\<dots> = replicate BUFF_SIZE b"
    using BUFF_SIZE_pos by (metis Suc_pred' replicate_Suc replicate_append_same)
  finally have p1: "peek (cur_buff w) ?w' = replicate BUFF_SIZE b" .
  have p2: "peek (other (cur_buff w)) ?w' = peek (other (cur_buff w)) w"
    using r(8) w1(5,8) by simp
  from run r(2-6,9) q1 w1(4,5,9) p1 p2 show ?thesis by auto
qed

lemma env_lazy_facts:
  "take_ok env_lazy" "send_ok env_lazy i" "lag env_lazy i = QUEUE_DEPTH" "ahead env_lazy i = 0"
  by (simp_all add: env_lazy_def env_ok_def)

lemma session1_facts:
  "state session1 = 1" "used session1 = 0" "cur_buff session1 = Plane1"
  "the_queue session1 = []" "\<not> error (wt session1)" "stored (wt session1) = []"
  "taken session1 = None" "unfinished session1 = []"
  by (simp_all add: session1_eq writer_init_def the_queue_def unfinished_def task_begin_def)

lemma two_planes_run:
  "\<exists>w. puts_loop env_lazy 0 (replicate BUFF_SIZE 65 @ replicate BUFF_SIZE 66 @ ys) False session1 =
         puts_loop env_lazy (BUFF_SIZE + BUFF_SIZE) ys True w \<and>
       session_ok w \<and> queue w = Some [flush_cmd Plane1, flush_cmd Plane2] \<and> taken w = None \<and>
       wt w = wt session1 \<and> cur_buff w = Plane1 \<and> used w = 0 \<and>
       peek Plane1 w = replicate BUFF_SIZE 65 \<and>
       peek Plane2 w = replicate BUFF_SIZE 66"
proof -
  let ?e = env_lazy
  have lz: "\<And>w. length (unfinished w) \<le> QUEUE_DEPTH \<Longrightarrow>
              \<forall>i. length (unfinished w) \<le> lag ?e i \<and> ahead ?e i = 0"
    by (simp add: env_lazy_facts)
  have snd: "\<forall>i. send_ok ?e i" by (simp add: env_lazy_facts)
  have u0: "length (unfinished session1) \<le> QUEUE_DEPTH" by (simp add: session1_facts)
  have q0: "qlen session1 < QUEUE_DEPTH" by (simp add: qlen_def session1_facts QUEUE_DEPTH_def)
  from puts_loop_lazy_plane [OF session1_ok session1_facts(2) _ lz [OF u0] q0 snd,
      of 65 0 "replicate BUFF_SIZE 66 @ ys" False]
  obtain w1 where
    r1: "puts_loop ?e 0 (replicate BUFF_SIZE 65 @ replicate BUFF_SIZE 66 @ ys) False session1 =
           puts_loop ?e BUFF_SIZE (replicate BUFF_SIZE 66 @ ys) True w1"
    and w1: "session_ok w1" "queue w1 = Some [flush_cmd Plane1]" "wt w1 = wt session1"
      "cur_buff w1 = Plane2" "used w1 = 0" "peek Plane1 w1 = replicate BUFF_SIZE 65"
      "taken w1 = None"
    by (auto simp: session1_facts other_def)
  have t1: "the_queue w1 = [flush_cmd Plane1]" using w1(2) by (simp add: the_queue_def)
  have u1: "length (unfinished w1) \<le> QUEUE_DEPTH"
    by (simp add: unfinished_def t1 w1(7) QUEUE_DEPTH_def)
  have q1: "qlen w1 < QUEUE_DEPTH" by (simp add: qlen_def t1 QUEUE_DEPTH_def)
  from puts_loop_lazy_plane [OF w1(1) w1(5) _ lz [OF u1] q1 snd, of 66 BUFF_SIZE ys True]
  obtain w2 where
    r2: "puts_loop ?e BUFF_SIZE (replicate BUFF_SIZE 66 @ ys) True w1 =
           puts_loop ?e (BUFF_SIZE + BUFF_SIZE) ys True w2"
    and w2: "session_ok w2" "queue w2 = Some [flush_cmd Plane1, flush_cmd Plane2]"
      "wt w2 = wt session1" "cur_buff w2 = Plane1" "used w2 = 0"
      "peek Plane2 w2 = replicate BUFF_SIZE 66" "peek Plane1 w2 = peek Plane1 w1"
      "taken w2 = None"
    by (auto simp: t1 w1 other_def)
  from r1 r2 w1 w2 show ?thesis by (intro exI [of _ w2]) simp
qed

lemma long_text_run:
  "\<exists>w. writer_puts env_lazy long_text None session1 = Some (0, None, w) \<and>
       session_ok w \<and> unfinished w = [flush_cmd Plane1, flush_cmd Plane2] \<and> chunk_ok w \<and>
       wt w = wt session1 \<and> cur_buff w = Plane1 \<and> used w = 1 \<and>
       peek Plane1 w = (replicate BUFF_SIZE 65)[0 := 67] \<and>
       peek Plane2 w = replicate BUFF_SIZE 66"
proof -
  let ?e = env_lazy
  from two_planes_run [of "[67]"] obtain w2 where
    r12: "puts_loop ?e 0 long_text False session1 =
            puts_loop ?e (BUFF_SIZE + BUFF_SIZE) [67] True w2"
    and w2: "session_ok w2" "queue w2 = Some [flush_cmd Plane1, flush_cmd Plane2]"
      "wt w2 = wt session1" "cur_buff w2 = Plane1" "used w2 = 0"
      "peek Plane2 w2 = replicate BUFF_SIZE 66" "peek Plane1 w2 = replicate BUFF_SIZE 65"
      "taken w2 = None"
    by (auto simp: long_text_def)
  have t2: "unfinished w2 = [flush_cmd Plane1, flush_cmd Plane2]"
    using w2(2,8) by (simp add: unfinished_def the_queue_def)
  let ?i = "BUFF_SIZE + BUFF_SIZE"
  let ?w = "stage ?e ?i 67 w2"
  have ne: "used w2 + 1 \<noteq> BUFF_SIZE" by (simp add: w2 BUFF_SIZE_def)
  note pb = push_byte_session_fill(1,2) [OF w2(1) ne, of ?e ?i 67]
  have l2: "length (unfinished w2) \<le> lag ?e ?i" "ahead ?e ?i = 0"
    by (simp_all add: t2 env_lazy_facts QUEUE_DEPTH_def)
  have s: "?w = (poke (cur_buff w2) (used w2) 67 w2)\<lparr>used := used w2 + 1\<rparr>"
    by (rule stage_lazy [OF l2])
  have r3: "puts_loop ?e ?i [67] True w2 = Some (0, True, ?w)"
    using pb(1) by simp
  have r: "puts_loop ?e 0 long_text False session1 = Some (0, True, ?w)"
    by (simp only: r12 r3)
  have m: "mutex session1" using session1_ok by (simp add: session_ok_def)
  have "writer_puts ?e long_text None session1 = Some (0, None, ?w)"
    by (simp add: writer_puts_session [OF m] env_lazy_facts session1_facts r)
  moreover have "unfinished ?w = [flush_cmd Plane1, flush_cmd Plane2]" "wt ?w = wt session1"
    "cur_buff ?w = Plane1" "used ?w = 1"
    by (simp_all add: s t2 w2)
  moreover have "chunk_ok ?w" by (simp add: s chunk_ok_def w2)
  moreover have "peek Plane1 ?w = (replicate BUFF_SIZE 65)[0 := 67]"
    "peek Plane2 ?w = replicate BUFF_SIZE 66"
    by (simp_all add: s peek_poke w2)
  ultimately show ?thesis using pb(2) by blast
qed

lemma overwritten_plane:
  "(replicate BUFF_SIZE (65 :: byte))[0 := 67] = 67 # replicate (BUFF_SIZE - 1) 65"
proof -
  from BUFF_SIZE_pos obtain m where m: "BUFF_SIZE = Suc m" by (cases BUFF_SIZE) auto
  show ?thesis unfolding m by simp
qed

lemma overrun_finish:
  assumes "session_ok w" "unfinished w = [flush_cmd Plane1, flush_cmd Plane2]" "chunk_ok w"
    and "\<not> error (wt w)" "stored (wt w) = []" "cur_buff w = Plane1" "used w = 1"
    and "peek Plane1 w = (replicate BUFF_SIZE 65)[0 := 67]"
    and "peek Plane2 w = replicate BUFF_SIZE 66"
  shows "\<exists>w'. writer_finish env_ok w = Some (0, w') \<and> \<not> error (wt w') \<and>
           stored (wt w') = 67 # replicate (BUFF_SIZE - 1) 65 @ replicate BUFF_SIZE 66 @ [67]"
proof -
  have tk: "take_ok env_ok" "send_ok env_ok 0" by (simp_all add: env_ok_def)
  from writer_finish_session [OF assms(1) tk] obtain w2 where
    f: "writer_finish env_ok w = Some (0, closed w2)"
    and st: "chunk_ok w \<and> \<not> error (wt w2) \<longrightarrow>
               \<not> error (wt w) \<and>
               stored (wt w2) = flushed w @ take (used w) (peek (cur_buff w) w)"
    by blast
  have io: "io_fine env_ok" using env_ok_fine(1) by (simp add: env_fine_def)
  have ne: "\<not> error (wt (closed w2))"
    by (rule writer_finish_fine [OF io assms(4) f])
  then have ne2: "\<not> error (wt w2)" by (simp add: closed_def)
  with st assms(3) have
    "stored (wt w2) = flushed w @ take (used w) (peek (cur_buff w) w)" by simp
  then have "stored (wt w2) = take BUFF_SIZE (peek Plane1 w) @ take BUFF_SIZE (peek Plane2 w) @
                   take 1 (peek Plane1 w)"
    using assms(2,5,6,7) by (simp add: flushed_def flush_cmd_def)
  then have "stored (wt w2) =
               67 # replicate (BUFF_SIZE - 1) 65 @ replicate BUFF_SIZE 66 @ [67]"
    using BUFF_SIZE_pos by (simp add: assms(8,9) overwritten_plane)
  with f ne2 show ?thesis by (intro exI [of _ "closed w2"]) (simp add: closed_def)
qed

lemma overrun_differs:
  "67 # replicate (BUFF_SIZE - 1) 65 @ replicate BUFF_SIZE 66 @ [67] \<noteq>
   replicate BUFF_SIZE (65 :: byte) @ replicate BUFF_SIZE 66 @ [67]"
proof
  assume "67 # replicate (BUFF_SIZE - 1) 65 @ replicate BUFF_SIZE 66 @ [67] =
          replicate BUFF_SIZE (65 :: byte) @ replicate BUFF_SIZE 66 @ [67]"
  then have "hd (67 # replicate (BUFF_SIZE - 1) 65 @ replicate BUFF_SIZE 66 @ [67]) =
             hd (replicate BUFF_SIZE (65 :: byte) @ replicate BUFF_SIZE 66 @ [67])"
    by (rule arg_cong)
  moreover have "hd (replicate BUFF_SIZE (65 :: byte) @ replicate BUFF_SIZE 66 @ [67]) = 65"
    using BUFF_SIZE_pos by (simp add: hd_append)
  ultimately show False by simp
qed

text \<open>
  C1 as stated does not hold. One \<open>writer_puts\<close> of \<open>BUFF_SIZE\<close> bytes 65,
  \<open>BUFF_SIZE\<close> bytes 66 and one byte 67, during which the task takes no step,
  returns 0, and so does the finish; no error is flagged. The byte 67 went into the first
  plane before the task wrote that plane, so the card holds 67, then \<open>BUFF_SIZE - 1\<close>
  bytes 65, the bytes 66 and 67: not the bytes handed over.
\<close>

theorem stored_bytes_overrun:
  "session writer_init env_ok ''/output-001.csv'' [(env_lazy, Puts long_text None)] env_ok \<noteq> None \<and>
   \<not> error (the (session writer_init env_ok ''/output-001.csv''
                  [(env_lazy, Puts long_text None)] env_ok)) \<and>
   stored (the (session writer_init env_ok ''/output-001.csv''
                  [(env_lazy, Puts long_text None)] env_ok)) =
     67 # replicate (BUFF_SIZE - 1) 65 @ replicate BUFF_SIZE 66 @ [67] \<and>
   concat (map (payload \<circ> snd) [(env_lazy, Puts long_text None)]) =
     replicate BUFF_SIZE 65 @ replicate BUFF_SIZE 66 @ [67] \<and>
   stored (the (session writer_init env_ok ''/output-001.csv''
                  [(env_lazy, Puts long_text None)] env_ok)) \<noteq>
     concat (map (payload \<circ> snd) [(env_lazy, Puts long_text None)])"
proof -
  from long_text_run obtain w where
    p: "writer_puts env_lazy long_text None session1 = Some (0, None, w)"
    and w: "session_ok w" "unfinished w = [flush_cmd Plane1, flush_cmd Plane2]" "chunk_ok w"
      "wt w = wt session1" "cur_buff w = Plane1" "used w = 1"
      "peek Plane1 w = (replicate BUFF_SIZE 65)[0 := 67]"
      "peek Plane2 w = replicate BUFF_SIZE 66"
    by blast
  have e0: "\<not> error (wt w)" "stored (wt w) = []" by (simp_all add: w(4) session1_facts)
  from overrun_finish [OF w(1-3) e0 w(5-8)] obtain w' where
    f: "writer_finish env_ok w = Some (0, w')" and ne: "\<not> error (wt w')"
    and eq: "stored (wt w') = 67 # replicate (BUFF_SIZE - 1) 65 @ replicate BUFF_SIZE 66 @ [67]"
    by blast
  have s: "session writer_init env_ok ''/output-001.csv'' [(env_lazy, Puts long_text None)] env_ok
             = Some (wt w')"
    using p f by (simp add: session_def session1_def [symmetric])
  have pl: "concat (map (payload \<circ> snd) [(env_lazy, Puts long_text None)]) =
              replicate BUFF_SIZE 65 @ replicate BUFF_SIZE 66 @ [67]"
    by (simp add: long_text_payload) (simp add: long_text_def)
  from s ne eq pl overrun_differs show ?thesis by simp
qed

section \<open>The bound on the steps of the task\<close>

lemma worker_run_rest:
  "\<not> alive (wt w) \<or> unfinished w = [] \<Longrightarrow> worker_run n e w = w"
  by (induction n) (simp_all add: worker_step_rest)

text \<open>
  After \<open>work_left w\<close> steps the task has nothing left to do, so a condition
  \<open>worker_until\<close> has not met within that bound is never met.
\<close>

lemma worker_run_done:
  "work_left w \<le> n \<Longrightarrow> worker_step e (worker_run n e w) = worker_run n e w"
proof (induction n arbitrary: w)
  case 0
  then have "unfinished w = []" using work_left_pos [of w] by auto
  then show ?case by (simp add: worker_step_rest)
next
  case (Suc n)
  show ?case
  proof (cases "\<not> alive (wt w) \<or> unfinished w = []")
    case True
    then show ?thesis by (simp only: worker_run_rest worker_step_rest)
  next
    case False
    then have "work_left (worker_step e w) < work_left w"
      by (intro worker_step_progress) simp_all
    with Suc.prems have "work_left (worker_step e w) \<le> n" by simp
    from Suc.IH [OF this] show ?thesis by simp
  qed
qed

lemma worker_until_all:
  "\<not> P (worker_until P n e w) \<Longrightarrow> worker_until P n e w = worker_run n e w"
  by (induction n arbitrary: w) (auto split: if_splits)

lemma worker_until_stuck:
  assumes "work_left w \<le> n" "\<not> P (worker_until P n e w)"
  shows "worker_run m e (worker_until P n e w) = worker_until P n e w"
proof -
  have "worker_step e (worker_until P n e w) = worker_until P n e w"
    using worker_run_done [OF assms(1), of e] worker_until_all [of P n e w] assms(2) by simp
  then show ?thesis by (induction m) simp_all
qed

lemma worker_run_beyond:
  "work_left w \<le> n \<Longrightarrow> worker_run (n + k) e w = worker_run n e w"
proof (induction k)
  case 0
  then show ?case by simp
next
  case (Suc k)
  have "worker_run (n + Suc k) e w = worker_run 1 e (worker_run (n + k) e w)"
    using worker_run_add [of "n + k" 1 e w] by simp
  with Suc worker_run_done [of w n e] show ?case by simp
qed

lemma worker_until_first:
  "P (worker_run n e w) \<Longrightarrow> n \<le> f \<Longrightarrow>
     \<exists>m. m \<le> n \<and> worker_until P f e w = worker_run m e w"
proof (induction n arbitrary: w f)
  case 0
  then have "worker_until P f e w = worker_run 0 e w" by (simp add: worker_until_idle)
  then show ?case by blast
next
  case (Suc n)
  show ?case
  proof (cases "P w")
    case True
    then have "worker_until P f e w = worker_run 0 e w" by (simp add: worker_until_idle)
    then show ?thesis by blast
  next
    case False
    from Suc.prems(2) obtain f' where f: "f = Suc f'" "n \<le> f'" by (cases f) auto
    from Suc.prems(1) have "P (worker_run n e (worker_step e w))" by simp
    from Suc.IH [OF this f(2)] obtain m where
      "m \<le> n" "worker_until P f' e (worker_step e w) = worker_run m e (worker_step e w)"
      by blast
    with False f have "Suc m \<le> Suc n \<and> worker_until P f e w = worker_run (Suc m) e w"
      by simp
    then show ?thesis by blast
  qed
qed

text \<open>
  Whatever number of steps the task has taken before a store: if at most \<open>k\<close>
  commands are unfinished then, the module is as an environment with the lag \<open>k\<close>
  describes it.
\<close>

lemma schedule_as_lag:
  assumes "length (unfinished (worker_run n e w)) \<le> k"
  shows "\<exists>a. worker_run n e w = worker_run a e (worker_catch_up e k w)"
proof -
  let ?P = "\<lambda>w. length (unfinished w) \<le> k"
  let ?n = "min n (work_left w)"
  have eq: "worker_run n e w = worker_run ?n e w"
  proof (cases "n \<le> work_left w")
    case True
    then show ?thesis by (simp add: min_def)
  next
    case False
    then have "n = work_left w + (n - work_left w)" by simp
    then have "worker_run n e w = worker_run (work_left w) e w"
      using worker_run_beyond [of w "work_left w" "n - work_left w" e] by simp
    with False show ?thesis by (simp add: min_def)
  qed
  with assms have "?P (worker_run ?n e w)" by simp
  from worker_until_first [of ?P, OF this, of "work_left w"] obtain m where
    m: "m \<le> ?n" "worker_catch_up e k w = worker_run m e w"
    by (auto simp: worker_catch_up_def)
  have "worker_run ?n e w = worker_run (?n - m) e (worker_run m e w)"
    using worker_run_add [of m "?n - m" e w] m(1) by simp
  with eq m(2) show ?thesis by auto
qed

section \<open>A command taken and not yet written\<close>

text \<open>
  The same loss with never more than one command waiting in the queue when a byte is
  stored. After two planes of text the task takes the command for the first plane from the
  queue and reads nothing yet; the byte 67 is stored into the first plane while only the
  command for the second plane waits; then the task writes the first plane.
\<close>

lemma taken_command_run:
  "\<exists>w. writer_puts env_lazy (replicate BUFF_SIZE 65 @ replicate BUFF_SIZE 66) None session1 =
         Some (0, None, w) \<and>
       the_queue (before_store env_take 0 w) = [flush_cmd Plane2] \<and>
       taken (before_store env_take 0 w) = Some (flush_cmd Plane1, []) \<and>
       writer_push env_take 67 None w = Some (0, None, stage env_take 0 67 w) \<and>
       (\<exists>w'. writer_finish env_ok (stage env_take 0 67 w) = Some (0, w') \<and>
             \<not> error (wt w') \<and>
             stored (wt w') =
               67 # replicate (BUFF_SIZE - 1) 65 @ replicate BUFF_SIZE 66 @ [67])"
proof -
  let ?e = env_take
  from two_planes_run [of "[]"] obtain w where
    r: "puts_loop env_lazy 0 (replicate BUFF_SIZE 65 @ replicate BUFF_SIZE 66) False session1 =
          Some (0, True, w)"
    and w: "session_ok w" "queue w = Some [flush_cmd Plane1, flush_cmd Plane2]"
      "wt w = wt session1" "cur_buff w = Plane1" "used w = 0"
      "peek Plane2 w = replicate BUFF_SIZE 66" "peek Plane1 w = replicate BUFF_SIZE 65"
      "taken w = None"
    by auto
  have m1: "mutex session1" using session1_ok by (simp add: session_ok_def)
  have p1: "writer_puts env_lazy (replicate BUFF_SIZE 65 @ replicate BUFF_SIZE 66) None session1 =
              Some (0, None, w)"
    by (simp add: writer_puts_session [OF m1] env_lazy_facts session1_facts r)
  have ef: "take_ok ?e" "lag ?e 0 = QUEUE_DEPTH" "ahead ?e 0 = 1"
    by (simp_all add: env_take_def env_ok_def)
  have al: "alive (wt w)" using w(1) by (simp add: session_ok_def task_ok_def)
  have un: "unfinished w = [flush_cmd Plane1, flush_cmd Plane2]"
    using w(2,8) by (simp add: unfinished_def the_queue_def)
  have cu: "worker_catch_up ?e QUEUE_DEPTH w = w"
    by (simp add: worker_catch_up_def un QUEUE_DEPTH_def worker_until_idle)
  have bs: "before_store ?e 0 w =
              w\<lparr>queue := Some [flush_cmd Plane2], taken := Some (flush_cmd Plane1, [])\<rparr>"
    using al w(2,8) by (simp add: before_store_def cu ef worker_step_def)
  let ?s = "stage ?e 0 67 w"
  have ne: "used w + 1 \<noteq> BUFF_SIZE" by (simp add: w BUFF_SIZE_def)
  note pb = push_byte_session_fill(1,2) [OF w(1) ne, of ?e 0 67]
  have m: "mutex w" "state w = 1" using w(1) by (simp_all add: session_ok_def)
  have p2: "writer_push ?e 67 None w = Some (0, None, ?s)"
    by (simp add: writer_push_session [OF m] ef push_byte_fill [OF ne])
  have s: "?s = (poke Plane1 0 67
                   (w\<lparr>queue := Some [flush_cmd Plane2], taken := Some (flush_cmd Plane1, [])\<rparr>))
                \<lparr>used := 1\<rparr>"
    by (simp add: stage_def bs w)
  have us: "unfinished ?s = [flush_cmd Plane1, flush_cmd Plane2]"
    by (simp add: s unfinished_def the_queue_def)
  have ck: "chunk_ok ?s" by (simp add: s chunk_ok_def)
  have e0: "\<not> error (wt ?s)" "stored (wt ?s) = []" "cur_buff ?s = Plane1" "used ?s = 1"
    by (simp_all add: s w session1_facts)
  have pk: "peek Plane1 ?s = (replicate BUFF_SIZE 65)[0 := 67]"
    "peek Plane2 ?s = replicate BUFF_SIZE 66"
    using w(6,7) by (simp_all add: s peek_poke) (simp_all add: peek_def)
  from overrun_finish [OF pb(2) us ck e0 pk] p1 p2 bs show ?thesis
    by (intro exI [of _ w]) (simp add: the_queue_def)
qed

end
